theory Spec2Isabelle
  imports Main "HOL-Library.AList" "HOL-Library.Sublist" "HOL-Library.List_Lexorder"
    "HOL-Library.Char_ord"
begin

section \<open>Errors raised by the Python code\<close>

text \<open>
  Every exception the modelled functions can raise is a value of this type; a function
  that may raise returns \<open>error + 'a\<close>, with \<open>Inl\<close> for the exception.
\<close>

datatype error =
    KeyError
  | TypeError
  | ZeroDivisionError
  | AssertionError
  | NotAllRequiredRestored
  | UnexpectedVariables

text \<open>
  \<open>NotAllRequiredRestored\<close> and \<open>UnexpectedVariables\<close> are the two plain
  \<open>Exception\<close>s of \<open>Shell.restore_from_checkpoint\<close> ("Not all required variables
  restored" and "Restoring only ... variables from ... found in the checkpoint").
\<close>

section \<open>Sync policies of the shell (\<open>distributed/shell.py\<close>)\<close>

text \<open>
  \<^verbatim>\<open>
  class SyncNever:
    def should_sync(self, *args):
      return False

  class SyncEveryNSteps:
    def __init__(self, sync_period):
      self.sync_period = sync_period
    def should_sync(self, step):
      return step % self.sync_period == 0
  \<close>
  Python's \<open>%\<close> on integers raises ZeroDivisionError for a zero divisor (HOL's \<open>mod\<close>
  returns the dividend there, so the branch is written out); for a non-zero divisor both
  are the floored remainder, with the sign of the divisor.
\<close>

datatype sync_checker = SyncNever | SyncEveryNSteps (sync_period: int)

fun should_sync :: "sync_checker \<Rightarrow> int \<Rightarrow> error + bool" where
  "should_sync SyncNever step = Inr False"
| "should_sync (SyncEveryNSteps p) step =
     (if p = 0 then Inl ZeroDivisionError else Inr (step mod p = 0))"

text \<open>
  The part of \<open>Shell.__init__\<close> that builds the sync checker:
  \<^verbatim>\<open>
  if sync_period is not None:
    self._sync_checker = SyncEveryNSteps(sync_period)
    assert self._sync_checker.should_sync(0)  # must sync at the beginning
  else:
    self._sync_checker = SyncNever()
  \<close>
\<close>

definition init_sync_checker :: "int option \<Rightarrow> error + sync_checker" where
  "init_sync_checker sp =
     (case sp of
        Some p \<Rightarrow>
          (case should_sync (SyncEveryNSteps p) 0 of
             Inl e \<Rightarrow> Inl e
           | Inr b \<Rightarrow> if b then Inr (SyncEveryNSteps p) else Inl AssertionError)
      | None \<Rightarrow> Inr SyncNever)"

section \<open>Properties of the sync policies\<close>

text \<open>
  Claim C9. For every integer \<open>sync_period \<ge> 1\<close>,
  \<open>SyncEveryNSteps(sync_period).should_sync(0)\<close> is true, so the assertion in the
  Shell constructor passes and the checker is installed; for \<open>sync_period = 0\<close> the
  same check raises ZeroDivisionError (from the unguarded modulo), not AssertionError.
\<close>

theorem should_sync_at_step_zero:
  "(1 \<le> p \<longrightarrow>
      should_sync (SyncEveryNSteps p) 0 = Inr True \<and>
      init_sync_checker (Some p) = Inr (SyncEveryNSteps p)) \<and>
   should_sync (SyncEveryNSteps 0) 0 = Inl ZeroDivisionError \<and>
   init_sync_checker (Some 0) = Inl ZeroDivisionError"
  by (simp add: init_sync_checker_def)

theorem should_sync_at_step_zero_witness:
  "(1::int) \<le> 5 \<and>
   should_sync (SyncEveryNSteps 5) 0 = Inr True \<and>
   init_sync_checker (Some 5) = Inr (SyncEveryNSteps 5)"
  using should_sync_at_step_zero [of 5] by simp

section \<open>The run loop of the full-episode actor (\<open>distributed/actor_full_episode.py\<close>)\<close>

text \<open>
  \<^verbatim>\<open>
  def run_loop(self, n_unrolls):
    ts = self._env.reset()
    self._traj.reset()
    self._traj.start(next_state=self._shell.next_state, **dict(ts._asdict()))
    i = 0
    while True:
      if n_unrolls is not None:
        if i == n_unrolls:
          return
      step_output = self._shell.step(...)
      ts = self._env.step(step_output.action)
      self._traj.add(step_output=step_output, **dict(ts._asdict()))
      if i > 0 and i % self._traj_length == 0:
        exps = self._traj.debatch_and_stack()
        self._send_experiences(exps)
      i += 1
  \<close>
  The shell, the environment and the trajectory are external collaborators; the state
  keeps what the loop itself decides: the counter \<open>i\<close>, the number of calls of
  \<open>env.step\<close> so far, and the log of transmissions, each recorded as the value of
  \<open>i\<close> at the call of \<open>_send_experiences\<close> with the number of environment steps
  taken by then. \<open>and\<close> short-circuits, so the modulo (which raises for
  \<open>traj_length = 0\<close>) is only evaluated when \<open>i > 0\<close>.

  With \<open>n_unrolls = None\<close> the loop never returns, so \<open>run_loop\<close> takes the number
  of iterations to run as fuel; the outcome says whether the loop returned, raised, or is
  still running when the fuel is used up.
\<close>

record actor_state =
  step_i :: int
  env_steps :: nat
  sent :: "(int \<times> nat) list"

datatype outcome = Returned | Running | Raised error

definition loop_body :: "int \<Rightarrow> actor_state \<Rightarrow> error option \<times> actor_state" where
  "loop_body traj_length s =
     (let s1 = s\<lparr>env_steps := env_steps s + 1\<rparr> in
      if step_i s > 0 then
        (if traj_length = 0 then (Some ZeroDivisionError, s1)
         else if step_i s mod traj_length = 0
           then (None, s1\<lparr>sent := sent s1 @ [(step_i s, env_steps s1)], step_i := step_i s + 1\<rparr>)
           else (None, s1\<lparr>step_i := step_i s + 1\<rparr>))
      else (None, s1\<lparr>step_i := step_i s + 1\<rparr>))"

fun run_loop :: "nat \<Rightarrow> int option \<Rightarrow> int \<Rightarrow> actor_state \<Rightarrow> outcome \<times> actor_state" where
  "run_loop 0 n_unrolls traj_length s = (Running, s)"
| "run_loop (Suc fuel) n_unrolls traj_length s =
     (if n_unrolls = Some (step_i s) then (Returned, s)
      else case loop_body traj_length s of
             (Some e, s') \<Rightarrow> (Raised e, s')
           | (None, s') \<Rightarrow> run_loop fuel n_unrolls traj_length s')"

text \<open>The state when the loop is entered: \<open>i = 0\<close>, no environment step, nothing sent.\<close>

definition actor_start :: actor_state where
  "actor_start = \<lparr>step_i = 0, env_steps = 0, sent = []\<rparr>"

text \<open>The condition of the source for sending at step \<open>j\<close>, where it evaluates to a truth value.\<close>

definition send_step :: "int \<Rightarrow> int \<Rightarrow> bool" where
  "send_step traj_length j \<longleftrightarrow> 0 < j \<and> traj_length \<noteq> 0 \<and> j mod traj_length = 0"

subsection \<open>When the actor sends\<close>

lemma run_loop_gen:
  "run_loop fuel nu T s = (oc, s') \<Longrightarrow> 0 \<le> step_i s \<Longrightarrow>
   step_i s \<le> step_i s' \<and>
   sent s' = sent s @ map (\<lambda>j. (j, env_steps s + nat (j - step_i s) + 1)) (filter (send_step T) [step_i s..step_i s' - 1])"
proof (induction fuel arbitrary: s)
  case 0
  then show ?case by simp
next
  case (Suc fuel)
  show ?case
  proof (cases "nu = Some (step_i s)")
    case True
    with Suc.prems show ?thesis by simp
  next
    case False
    obtain e s1 where lb: "loop_body T s = (e, s1)" by (cases "loop_body T s")
    show ?thesis
    proof (cases e)
      case (Some err)
      with lb False Suc.prems show ?thesis
        by (auto simp: loop_body_def Let_def send_step_def split: if_splits)
    next
      case None
      with lb False Suc.prems have run: "run_loop fuel nu T s1 = (oc, s')" by simp
      from lb None have i1: "step_i s1 = step_i s + 1" and e1: "env_steps s1 = env_steps s + 1"
        and snt: "sent s1 = sent s @ (if send_step T (step_i s) then [(step_i s, env_steps s + 1)] else [])"
        by (auto simp: loop_body_def Let_def send_step_def split: if_splits)
      from Suc.IH[OF run] Suc.prems(2) i1 have
        le: "step_i s1 \<le> step_i s'" and
        eq: "sent s' = sent s1 @ map (\<lambda>j. (j, env_steps s1 + nat (j - step_i s1) + 1)) (filter (send_step T) [step_i s1..step_i s' - 1])"
        by auto
      have up: "[step_i s..step_i s' - 1] = step_i s # [step_i s1..step_i s' - 1]"
        using le i1 by (simp add: upto_rec1)
      have mp: "map (\<lambda>j. (j, env_steps s1 + nat (j - step_i s1) + 1)) (filter (send_step T) [step_i s1..step_i s' - 1])
        = map (\<lambda>j. (j, env_steps s + nat (j - step_i s) + 1)) (filter (send_step T) [step_i s1..step_i s' - 1])"
      proof (rule map_cong[OF refl])
        fix j assume "j \<in> set (filter (send_step T) [step_i s1..step_i s' - 1])"
        then have "step_i s1 \<le> j" by simp
        with i1 e1 show "(j, env_steps s1 + nat (j - step_i s1) + 1) = (j, env_steps s + nat (j - step_i s) + 1)"
          by simp
      qed
      show ?thesis using le i1 unfolding eq mp snt up by simp
    qed
  qed
qed


lemma loop_body_ok:
  "T \<noteq> 0 \<Longrightarrow> \<exists>s1. loop_body T s = (None, s1) \<and> step_i s1 = step_i s + 1"
  by (simp add: loop_body_def Let_def)

lemma run_loop_count:
  "T \<noteq> 0 \<Longrightarrow> run_loop fuel nu T s = (oc, s') \<Longrightarrow>
     (case nu of
        Some n \<Rightarrow>
          if step_i s \<le> n \<and> n < step_i s + int fuel
          then oc = Returned \<and> step_i s' = n
          else oc = Running \<and> step_i s' = step_i s + int fuel
      | None \<Rightarrow> oc = Running \<and> step_i s' = step_i s + int fuel) \<and>
     env_steps s' = env_steps s + nat (step_i s' - step_i s)"
proof (induction fuel arbitrary: s)
  case 0
  then show ?case by (auto split: option.splits)
next
  case (Suc fuel)
  show ?case
  proof (cases "nu = Some (step_i s)")
    case True
    with Suc.prems show ?thesis by simp
  next
    case False
    from loop_body_ok[OF Suc.prems(1), of s] obtain s1
      where lb: "loop_body T s = (None, s1)" and i1: "step_i s1 = step_i s + 1" by blast
    from lb Suc.prems(1) have e1: "env_steps s1 = env_steps s + 1"
      by (auto simp: loop_body_def Let_def split: if_splits)
    from Suc.prems(2) lb False have run: "run_loop fuel nu T s1 = (oc, s')" by simp
    from Suc.IH[OF Suc.prems(1) run] have
      ih: "(case nu of
        Some n \<Rightarrow>
          if step_i s1 \<le> n \<and> n < step_i s1 + int fuel
          then oc = Returned \<and> step_i s' = n
          else oc = Running \<and> step_i s' = step_i s1 + int fuel
      | None \<Rightarrow> oc = Running \<and> step_i s' = step_i s1 + int fuel)"
      and env: "env_steps s' = env_steps s1 + nat (step_i s' - step_i s1)"
      by simp_all
    from ih have ge: "step_i s1 \<le> step_i s'"
      by (auto split: option.splits if_splits)
    from ih False i1 have "(case nu of
        Some n \<Rightarrow>
          if step_i s \<le> n \<and> n < step_i s + int (Suc fuel)
          then oc = Returned \<and> step_i s' = n
          else oc = Running \<and> step_i s' = step_i s + int (Suc fuel)
      | None \<Rightarrow> oc = Running \<and> step_i s' = step_i s + int (Suc fuel))"
      by (auto split: option.splits if_splits)
    moreover from env e1 i1 ge have "env_steps s' = env_steps s + nat (step_i s' - step_i s)"
      by simp
    ultimately show ?thesis by simp
  qed
qed

text \<open>
  Claim C10. For a non-zero \<open>traj_length\<close>, the loop started at \<open>i = 0\<close> runs its
  iterations one after the other: with \<open>n_unrolls = n\<close> for an \<open>n \<ge> 0\<close> it returns
  when \<open>i\<close> reaches \<open>n\<close>, having run the iterations \<open>0, ..., n - 1\<close>; with
  \<open>n_unrolls = None\<close> (or a negative \<open>n_unrolls\<close>, which \<open>i\<close> never equals) it
  never returns, and after any number of iterations it has run exactly those and is still
  running. In either case it has called \<open>env.step\<close> once per iteration, it has sent
  nothing at step 0, and it has sent exactly at the steps \<open>i > 0\<close> with
  \<open>i % traj_length == 0\<close> among the iterations run, in order, the transmission at step
  \<open>i\<close> coming after \<open>i + 1\<close> calls of \<open>env.step\<close>: the first one at
  \<open>i = traj_length\<close>, the next ones every \<open>traj_length\<close> steps. The theorem gives
  the outcome and the whole state of the loop for every amount of fuel.
\<close>

theorem actor_sends:
  assumes "T \<noteq> 0"
  shows "run_loop fuel n_unrolls T actor_start =
     (let k = (case n_unrolls of
                 Some n \<Rightarrow> if 0 \<le> n \<and> n < int fuel then n else int fuel
               | None \<Rightarrow> int fuel)
      in (if n_unrolls = Some k \<and> k < int fuel then Returned else Running,
          \<lparr>step_i = k, env_steps = nat k,
           sent = map (\<lambda>j. (j, nat j + 1))
                    (filter (\<lambda>j. 0 < j \<and> j mod T = 0) [0..k - 1])\<rparr>))"
proof -
  obtain oc s where r: "run_loop fuel n_unrolls T actor_start = (oc, s)"
    by (cases "run_loop fuel n_unrolls T actor_start")
  define k where "k = (case n_unrolls of
                 Some n \<Rightarrow> if 0 \<le> n \<and> n < int fuel then n else int fuel
               | None \<Rightarrow> int fuel)"
  from run_loop_count[OF assms r] have
    i: "step_i s = k" and
    o: "oc = (if n_unrolls = Some k \<and> k < int fuel then Returned else Running)" and
    e: "env_steps s = nat k"
    by (auto simp: actor_start_def k_def split: option.splits if_splits)
  from run_loop_gen[OF r] assms i have
    snt: "sent s = map (\<lambda>j. (j, nat j + 1))
                    (filter (\<lambda>j. 0 < j \<and> j mod T = 0) [0..k - 1])"
    by (simp add: actor_start_def send_step_def[abs_def])
  from i e snt have "s = \<lparr>step_i = k, env_steps = nat k,
           sent = map (\<lambda>j. (j, nat j + 1))
                    (filter (\<lambda>j. 0 < j \<and> j mod T = 0) [0..k - 1])\<rparr>"
    by (cases s) simp
  with r o show ?thesis unfolding k_def[symmetric] by (simp add: Let_def)
qed

theorem actor_sends_witness:
  "(3::int) \<noteq> 0 \<and>
   run_loop 50 (Some 10) 3 actor_start =
     (Returned, \<lparr>step_i = 10, env_steps = 10, sent = [(3, 4), (6, 7), (9, 10)]\<rparr>) \<and>
   run_loop 8 None 3 actor_start =
     (Running, \<lparr>step_i = 8, env_steps = 8, sent = [(3, 4), (6, 7)]\<rparr>)"
proof -
  have u: "map (\<lambda>j. (j, Suc (nat j))) (filter (\<lambda>j. 0 < j \<and> j mod 3 = 0) [0..9::int]) =
      [(3, 4), (6, 7), (9, 10)]"
    and v: "map (\<lambda>j. (j, Suc (nat j))) (filter (\<lambda>j. 0 < j \<and> j mod 3 = 0) [0..7::int]) =
      [(3, 4), (6, 7)]"
    by code_simp+
  from actor_sends[of 3 50 "Some 10"] actor_sends[of 3 8 None]
  show ?thesis by (simp add: u v)
qed

section \<open>The replay buffer\<close>

text \<open>
  Modelled from the spec: the replay entry. \<open>UniformReplay\<close> is imported from
  \<open>liaison.replay\<close>, which is not among the source files; the spec's data model says a
  replay entry is "a stored experience item, tagged with insertion order index and mutable
  sample-count".
\<close>

record 'a replay_entry =
  payload :: 'a
  index :: nat
  sample_count :: nat

text \<open>
  Modelled from the spec: the replay buffer, "bounded ... storage of experience", a "FIFO
  ring" of capacity \<open>memory_size\<close>; the entries are kept oldest first.
\<close>

record 'a replay =
  memory_size :: nat
  entries :: "'a replay_entry list"
  total_inserted :: nat

text \<open>Modelled from the spec: a new buffer of the configured capacity holds nothing.\<close>

definition empty_replay :: "nat \<Rightarrow> 'a replay" where
  "empty_replay m = \<lparr>memory_size = m, entries = [], total_inserted = 0\<rparr>"

text \<open>
  Modelled from the spec: \<open>insert(experience)\<close> "appends; if at capacity, evicts oldest
  entry first (FIFO); returns nothing", an entry being evicted when "the buffer exceeds
  its memory-size capacity (oldest/evicted-first policy, FIFO ring by default)". The new
  entry is appended and the oldest entries beyond the capacity are dropped. Capacity
  exhaustion is "not an error": the operation has no failing branch.
\<close>

definition insert_exp :: "'a \<Rightarrow> 'a replay \<Rightarrow> 'a replay" where
  "insert_exp e r =
     (let es = entries r @ [\<lparr>payload = e, index = total_inserted r, sample_count = 0\<rparr>]
      in r\<lparr>entries := drop (length es - memory_size r) es,
           total_inserted := total_inserted r + 1\<rparr>)"

text \<open>Modelled from the spec: the size query, \<open>len(replay)\<close> in the reference test.\<close>

definition replay_len :: "'a replay \<Rightarrow> nat" where
  "replay_len r = length (entries r)"

text \<open>
  Modelled from the spec: a batch of experiences reaches the buffer as one insert per
  item, in order (the reference test sends the \<open>BATCH_SIZE\<close> items of a batch one by one).
\<close>

definition insert_batch :: "'a list \<Rightarrow> 'a replay \<Rightarrow> 'a replay" where
  "insert_batch b r = fold insert_exp b r"

text \<open>A buffer of capacity 2 that is full, used as a concrete input below.\<close>

definition full_replay :: "nat replay" where
  "full_replay = \<lparr>memory_size = 2,
     entries = [\<lparr>payload = 5, index = 0, sample_count = 0\<rparr>,
                \<lparr>payload = 6, index = 1, sample_count = 3\<rparr>],
     total_inserted = 2\<rparr>"

subsection \<open>The length of the replay buffer\<close>

lemma memory_size_insert_exp [simp]: "memory_size (insert_exp e r) = memory_size r"
  by (simp add: insert_exp_def Let_def)

lemma replay_len_insert_exp:
  "replay_len (insert_exp e r) = min (replay_len r + 1) (memory_size r)"
  by (auto simp: insert_exp_def replay_len_def Let_def)

lemma replay_len_fold_gen:
  "replay_len r \<le> memory_size r \<Longrightarrow>
   replay_len (fold insert_exp xs r) = min (replay_len r + length xs) (memory_size r) \<and>
   memory_size (fold insert_exp xs r) = memory_size r"
proof (induction xs arbitrary: r)
  case Nil
  then show ?case by simp
next
  case (Cons x xs)
  have "replay_len (insert_exp x r) \<le> memory_size (insert_exp x r)"
    by (simp add: replay_len_insert_exp)
  from Cons.IH[OF this] show ?case
    by (auto simp: replay_len_insert_exp)
qed

lemma total_inserted_fold:
  "total_inserted (fold insert_exp xs r) = total_inserted r + length xs"
  by (induction xs arbitrary: r) (simp_all add: insert_exp_def Let_def)

lemma replay_len_fold:
  "replay_len (fold insert_exp xs (empty_replay m)) = min (length xs) m"
  using replay_len_fold_gen[of "empty_replay m" xs]
  by (simp add: replay_len_def empty_replay_def)

lemma fold_insert_batch:
  "fold insert_batch bs r = fold insert_exp (concat bs) r"
  by (induction bs arbitrary: r) (simp_all add: insert_batch_def)

lemma insert_at_capacity:
  "0 < memory_size r \<Longrightarrow> replay_len r = memory_size r \<Longrightarrow>
   entries (insert_exp e r) =
     tl (entries r) @ [\<lparr>payload = e, index = total_inserted r, sample_count = 0\<rparr>]"
  by (cases "entries r") (auto simp: insert_exp_def replay_len_def Let_def)

lemma replay_len_batches:
  "replay_len (fold insert_batch (replicate (Suc i) (replicate 4 d)) (empty_replay 100))
     = min ((i + 1) * 4) 100"
  unfolding fold_insert_batch replay_len_fold
  by (simp add: length_concat sum_list_replicate)

text \<open>
  Claim C4. For every sequence of inserts into a replay buffer created with capacity
  \<open>memory_size\<close>, the length after the inserts is the minimum of the number of items
  inserted (which the buffer counts in \<open>total_inserted\<close>) and \<open>memory_size\<close>
  (every prefix of a sequence is a sequence, so this holds after each insert). In the scenario of the reference test, after the batch number
  \<open>i\<close> (counted from 0) of 4 items each into a buffer with \<open>memory_size = 100\<close> the
  length is \<open>min((i+1)*4, 100)\<close>. An insert into a full buffer succeeds: the oldest
  entry is evicted, the new one is stored last, the length stays \<open>memory_size\<close>.
\<close>

theorem replay_len_min:
  "replay_len (fold insert_exp xs (empty_replay m)) = min (length xs) m \<and>
   total_inserted (fold insert_exp xs (empty_replay m)) = length xs \<and>
   replay_len (fold insert_batch (replicate (Suc i) (replicate 4 d)) (empty_replay 100))
     = min ((i + 1) * 4) 100 \<and>
   (0 < memory_size r \<and> replay_len r = memory_size r \<longrightarrow>
      replay_len (insert_exp e r) = memory_size r \<and>
      entries (insert_exp e r) =
        tl (entries r) @ [\<lparr>payload = e, index = total_inserted r, sample_count = 0\<rparr>])"
proof (intro conjI impI)
  show "replay_len (fold insert_exp xs (empty_replay m)) = min (length xs) m"
    by (rule replay_len_fold)
  show "total_inserted (fold insert_exp xs (empty_replay m)) = length xs"
    by (simp add: total_inserted_fold empty_replay_def)
  show "replay_len (fold insert_batch (replicate (Suc i) (replicate 4 d)) (empty_replay 100))
     = min ((i + 1) * 4) 100"
    by (rule replay_len_batches)
next
  assume "0 < memory_size r \<and> replay_len r = memory_size r"
  then show "replay_len (insert_exp e r) = memory_size r"
    by (simp add: replay_len_insert_exp)
next
  assume "0 < memory_size r \<and> replay_len r = memory_size r"
  then show "entries (insert_exp e r) =
        tl (entries r) @ [\<lparr>payload = e, index = total_inserted r, sample_count = 0\<rparr>]"
    by (simp add: insert_at_capacity)
qed

theorem replay_len_min_witness:
  "0 < memory_size full_replay \<and> replay_len full_replay = memory_size full_replay \<and>
   replay_len (insert_exp 7 full_replay) = 2 \<and>
   entries (insert_exp 7 full_replay) =
     [\<lparr>payload = 6, index = 1, sample_count = 3\<rparr>,
      \<lparr>payload = 7, index = 2, sample_count = 0\<rparr>]"
  using replay_len_min [where r = full_replay and e = 7 and xs = "[]::nat list" and m = 0
      and i = 0 and d = "0::nat"]
  by (simp add: replay_len_def full_replay_def)

section \<open>The parameter server seen from the shell\<close>

text \<open>
  A parameter set: a mapping from variable name to tensor value, as a Python dict (an
  association list with distinct keys, in insertion order). The tensor type is left open.
\<close>

type_synonym 'v params = "(string \<times> 'v) list"

text \<open>
  Modelled from the spec: the parameter server as the client sees it.
  \<open>ParameterClient\<close> is imported from \<open>liaison.distributed.parameter_server\<close>, which is
  not among the source files. The server "stores the latest model weights" and answers a
  fetch "with the current parameter set (or a named subset) plus metadata"; before the
  first publish there is no parameter set.
\<close>

record 'v parameter_server =
  published :: "'v params option"
  publish_info :: nat

text \<open>
  Modelled from the spec: \<open>fetch_parameter_with_info(names) -> (values_or_None, info)\<close>
  "returns \<open>None\<close> values (not an error) when the server has not yet published
  anything"; after a publish it returns the named subset of the published mapping.
\<close>

definition fetch_parameter_with_info ::
  "'v parameter_server \<Rightarrow> string list \<Rightarrow> 'v params option \<times> nat" where
  "fetch_parameter_with_info ps names =
     (case published ps of
        None \<Rightarrow> (None, publish_info ps)
      | Some vals \<Rightarrow> (Some (filter (\<lambda>(k, v). k \<in> set names) vals), publish_info ps))"

section \<open>Syncing and restoring the shell's variables (\<open>distributed/shell.py\<close>)\<close>

text \<open>
  The fields of \<open>Shell\<close> that syncing and restoring use: the agent scope,
  \<open>_variable_names\<close> (the names of the graph's global variables in the scope, parallel
  to \<open>_variables\<close>), the keys of \<open>_var_names_to_assign_ops\<close>, and the values the
  session holds for the variables.
\<close>

record 'v shell =
  agent_scope :: string
  variable_names :: "string list"
  assign_op_names :: "string list"
  var_values :: "string \<rightharpoonup> 'v"

text \<open>
  \<^verbatim>\<open>
  def _pull_vars(self):
    params, unused_info = self._ps_client.fetch_parameter_with_info(self._variable_names)
    return params

  def _sync_variables(self):
    var_vals = self._pull_vars()
    if var_vals:
      assert sorted(var_vals.keys()) == sorted(self._variable_names) == sorted(
          self._var_names_to_assign_ops.keys())
      for var_name, assign_op in self._var_names_to_assign_ops.items():
        self.sess.run(assign_op, feed_dict={self._var_name_to_phs[var_name]: var_vals[var_name]})
      logging.info("Synced weights.")
  \<close>
  \<open>if var_vals\<close> is false for \<open>None\<close> and for an empty dict. Running an assign op
  stores the fetched value in the variable.
\<close>

definition pull_vars :: "'v parameter_server \<Rightarrow> 'v shell \<Rightarrow> 'v params option" where
  "pull_vars ps sh = fst (fetch_parameter_with_info ps (variable_names sh))"

fun assign_all :: "string list \<Rightarrow> 'v params \<Rightarrow> (string \<rightharpoonup> 'v) \<Rightarrow> error + (string \<rightharpoonup> 'v)" where
  "assign_all [] var_vals vars = Inr vars"
| "assign_all (n # ns) var_vals vars =
     (case map_of var_vals n of
        None \<Rightarrow> Inl KeyError
      | Some v \<Rightarrow> assign_all ns var_vals (vars(n \<mapsto> v)))"

definition sync_variables :: "'v parameter_server \<Rightarrow> 'v shell \<Rightarrow> error + 'v shell" where
  "sync_variables ps sh =
     (case pull_vars ps sh of
        None \<Rightarrow> Inr sh
      | Some var_vals \<Rightarrow>
          if var_vals = [] then Inr sh
          else if sort (map fst var_vals) = sort (variable_names sh) \<and>
                  sort (variable_names sh) = sort (assign_op_names sh)
          then (case assign_all (assign_op_names sh) var_vals (var_values sh) of
                  Inl e \<Rightarrow> Inl e
                | Inr vars \<Rightarrow> Inr (sh\<lparr>var_values := vars\<rparr>))
          else Inl AssertionError)"

text \<open>
  String helpers of Python that \<open>restore_from_checkpoint\<close> uses: \<open>str.split(sep)\<close>
  (which returns at least one piece), \<open>sep.join(pieces)\<close>, \<open>str.lower()\<close> (on ASCII
  letters, which variable names are made of) and the substring test \<open>sub in s\<close>.
\<close>

fun split_on :: "char \<Rightarrow> string \<Rightarrow> string list" where
  "split_on sep [] = [[]]"
| "split_on sep (c # cs) =
     (if c = sep then [] # split_on sep cs
      else (case split_on sep cs of
              [] \<Rightarrow> [[c]]
            | p # ps \<Rightarrow> (c # p) # ps))"

fun join :: "string \<Rightarrow> string list \<Rightarrow> string" where
  "join sep [] = []"
| "join sep [x] = x"
| "join sep (x # y # ys) = x @ sep @ join sep (y # ys)"

definition char_lower :: "char \<Rightarrow> char" where
  "char_lower c =
     (let n = of_char c :: nat in if 65 \<le> n \<and> n \<le> 90 then char_of (n + 32) else c)"

definition lower :: "string \<Rightarrow> string" where
  "lower s = map char_lower s"

fun contains :: "string \<Rightarrow> string \<Rightarrow> bool" where
  "contains sub [] = (sub = [])"
| "contains sub (c # cs) = (prefix sub (c # cs) \<or> contains sub cs)"

text \<open>
  \<^verbatim>\<open>
  def restore_from_checkpoint(self, restore_path):
    l = tf.train.list_variables(restore_path)
    restore_map = {}
    # strip ":%d" out from variable names.
    var_names = list(map(lambda k: k.split(':')[0], self._variable_names))
    var_names_left = set(var_names)
    unrestored = []
    for v, _ in l:
      # edit the scope.
      v2 = f'{self._agent_scope}/{"/".join(v.split("/")[1:])}'
      if v2 in var_names:
        restore_map[v] = self._variables[var_names.index(v2)]
        var_names_left.remove(v2)
      else:
        # not required for shell.
        if 'adam' in v.lower() or 'value_torso' in v.lower() or 'optimize' in v.lower(
        ) or 'global_step' in v.lower():
          pass
        else:
          unrestored.append(v)
    if len(restore_map) == 0:
      print(...)
    if var_names_left:
      raise Exception(f'Not all required variables restored: {var_names_left}')
    if unrestored:
      print(unrestored)
      raise Exception(f'Restoring only ... variables from ... found in the checkpoint ...!')
    saver = tf.train.Saver(var_list=restore_map)
    saver.restore(self.sess, restore_path)
  \<close>
  The checkpoint is given by the names \<open>tf.train.list_variables\<close> lists. The restore
  map sends a checkpoint name to the position in \<open>_variables\<close> of the variable it
  restores; \<open>set.remove\<close> raises KeyError for an element that is not in the set, which
  happens when two checkpoint names are rescoped to the same required name. The function
  returns the restore map it hands to the saver.
\<close>

definition strip_output_index :: "string \<Rightarrow> string" where
  "strip_output_index k = hd (split_on CHR '':'' k)"

definition rescope :: "string \<Rightarrow> string \<Rightarrow> string" where
  "rescope scope v = scope @ ''/'' @ join ''/'' (tl (split_on CHR ''/'' v))"

definition not_required :: "string \<Rightarrow> bool" where
  "not_required v \<longleftrightarrow>
     contains ''adam'' (lower v) \<or> contains ''value_torso'' (lower v) \<or>
     contains ''optimize'' (lower v) \<or> contains ''global_step'' (lower v)"

fun index_of :: "'a \<Rightarrow> 'a list \<Rightarrow> nat" where
  "index_of x [] = 0"
| "index_of x (y # ys) = (if x = y then 0 else Suc (index_of x ys))"

record restore_state =
  restore_map :: "(string \<times> nat) list"
  var_names_left :: "string set"
  unrestored :: "string list"

definition restore_step ::
  "string \<Rightarrow> string list \<Rightarrow> string \<Rightarrow> restore_state \<Rightarrow> error + restore_state" where
  "restore_step scope var_names v st =
     (let v2 = rescope scope v in
      if v2 \<in> set var_names then
        (if v2 \<in> var_names_left st
         then Inr (st\<lparr>restore_map := AList.update v (index_of v2 var_names) (restore_map st),
                      var_names_left := var_names_left st - {v2}\<rparr>)
         else Inl KeyError)
      else if not_required v then Inr st
      else Inr (st\<lparr>unrestored := unrestored st @ [v]\<rparr>))"

fun restore_loop ::
  "string \<Rightarrow> string list \<Rightarrow> string list \<Rightarrow> restore_state \<Rightarrow> error + restore_state" where
  "restore_loop scope var_names [] st = Inr st"
| "restore_loop scope var_names (v # vs) st =
     (case restore_step scope var_names v st of
        Inl e \<Rightarrow> Inl e
      | Inr st' \<Rightarrow> restore_loop scope var_names vs st')"

text \<open>The local \<open>var_names\<close> of \<open>restore_from_checkpoint\<close>.\<close>

definition required_names :: "'v shell \<Rightarrow> string list" where
  "required_names sh = map strip_output_index (variable_names sh)"

definition restore_from_checkpoint ::
  "'v shell \<Rightarrow> string list \<Rightarrow> error + (string \<times> nat) list" where
  "restore_from_checkpoint sh l =
     (let var_names = required_names sh in
      case restore_loop (agent_scope sh) var_names l
             \<lparr>restore_map = [], var_names_left = set var_names, unrestored = []\<rparr> of
        Inl e \<Rightarrow> Inl e
      | Inr st \<Rightarrow>
          if var_names_left st \<noteq> {} then Inl NotAllRequiredRestored
          else if unrestored st \<noteq> [] then Inl UnexpectedVariables
          else Inr (restore_map st))"

text \<open>A shell with two variables, used as a concrete input below.\<close>

definition example_shell :: "nat shell" where
  "example_shell = \<lparr>agent_scope = ''shell'',
     variable_names = [''shell/w:0'', ''shell/b:0''],
     assign_op_names = [''shell/w:0'', ''shell/b:0''],
     var_values = [''shell/w:0'' \<mapsto> 10, ''shell/b:0'' \<mapsto> 20]\<rparr>"

subsection \<open>Syncing before the first publish\<close>

text \<open>
  Claim C7. If the parameter server has not yet published any parameter set, the fetch
  returns \<open>(None, info)\<close> (no exception), and \<open>_sync_variables\<close> then returns
  normally without any assignment: the shell, with the value of every variable, is as it
  was before.
\<close>

theorem sync_before_publish:
  "published ps = None \<Longrightarrow>
     fetch_parameter_with_info ps names = (None, publish_info ps) \<and>
     sync_variables ps sh = Inr sh"
  by (simp add: fetch_parameter_with_info_def sync_variables_def pull_vars_def)

theorem sync_before_publish_witness:
  "published \<lparr>published = None :: nat params option, publish_info = 0\<rparr> = None \<and>
   fetch_parameter_with_info \<lparr>published = None :: nat params option, publish_info = 0\<rparr>
     [''shell/w:0'', ''shell/b:0''] = (None, 0) \<and>
   sync_variables \<lparr>published = None, publish_info = 0\<rparr> example_shell = Inr example_shell"
  using sync_before_publish [of "\<lparr>published = None :: nat params option, publish_info = 0\<rparr>"
      "[''shell/w:0'', ''shell/b:0'']" example_shell]
  by simp

subsection \<open>Restoring from a checkpoint\<close>

lemma restore_step_Inr:
  assumes "restore_step scope ns v st = Inr st'"
  shows "var_names_left st' = var_names_left st - ({rescope scope v} \<inter> set ns)"
    and "unrestored st' =
           unrestored st @ (if rescope scope v \<notin> set ns \<and> \<not> not_required v then [v] else [])"
    and "rescope scope v \<in> set ns \<Longrightarrow>
           map_of (restore_map st') v = Some (index_of (rescope scope v) ns)"
    and "w \<noteq> v \<Longrightarrow> map_of (restore_map st') w = map_of (restore_map st) w"
  using assms
  by (auto simp: restore_step_def Let_def update_conv' split: if_splits)

lemma restore_loop_Inr:
  "restore_loop scope ns l st = Inr st' \<Longrightarrow>
     var_names_left st' = var_names_left st - (rescope scope ` set l \<inter> set ns) \<and>
     unrestored st' =
       unrestored st @ filter (\<lambda>v. rescope scope v \<notin> set ns \<and> \<not> not_required v) l \<and>
     (\<forall>v \<in> set l. rescope scope v \<in> set ns \<longrightarrow>
        map_of (restore_map st') v = Some (index_of (rescope scope v) ns)) \<and>
     (\<forall>w. w \<notin> set l \<longrightarrow> map_of (restore_map st') w = map_of (restore_map st) w)"
proof (induction l arbitrary: st)
  case Nil
  then show ?case by simp
next
  case (Cons v vs)
  from Cons.prems obtain st1 where
    step: "restore_step scope ns v st = Inr st1" and
    rest: "restore_loop scope ns vs st1 = Inr st'"
    by (auto split: sum.splits)
  note s = restore_step_Inr[OF step]
  note ih = Cons.IH[OF rest]
  have left: "var_names_left st' =
      var_names_left st - (rescope scope ` set (v # vs) \<inter> set ns)"
    using ih s(1) by auto
  have unr: "unrestored st' = unrestored st @
      filter (\<lambda>v. rescope scope v \<notin> set ns \<and> \<not> not_required v) (v # vs)"
    using ih s(2) by simp
  have hit: "map_of (restore_map st') w = Some (index_of (rescope scope w) ns)"
    if "w \<in> set (v # vs)" "rescope scope w \<in> set ns" for w
  proof (cases "w \<in> set vs")
    case True
    with ih that(2) show ?thesis by blast
  next
    case False
    with that(1) have "w = v" by simp
    moreover from False ih have "map_of (restore_map st') w = map_of (restore_map st1) w"
      by blast
    ultimately show ?thesis using s(3) that(2) by simp
  qed
  have other: "map_of (restore_map st') w = map_of (restore_map st) w"
    if "w \<notin> set (v # vs)" for w
    using that ih s(4)[of w] by simp
  from left unr hit other show ?case by blast
qed

text \<open>
  Claim C8. Restoring from a checkpoint raises whenever a required variable name of the
  agent scope (a name of \<open>_variable_names\<close> without its \<open>:%d\<close> suffix) is the
  rescoped name of no checkpoint variable, and whenever the checkpoint has an unexpected
  extra variable: one that matches no required name and is not among the optimizer and
  learner-only names the code skips as not required for the shell. When the restore
  succeeds, every required name is matched by a checkpoint variable, which the restore map
  sends to the variable of that name.
\<close>

theorem restore_mismatch_fails:
  "((\<exists>n \<in> set (required_names sh). n \<notin> rescope (agent_scope sh) ` set l) \<longrightarrow>
      isl (restore_from_checkpoint sh l)) \<and>
   ((\<exists>v \<in> set l. rescope (agent_scope sh) v \<notin> set (required_names sh) \<and> \<not> not_required v) \<longrightarrow>
      isl (restore_from_checkpoint sh l)) \<and>
   (\<forall>m. restore_from_checkpoint sh l = Inr m \<longrightarrow>
      (\<forall>n \<in> set (required_names sh). \<exists>v \<in> set l.
         rescope (agent_scope sh) v = n \<and>
         map_of m v = Some (index_of n (required_names sh))))"
proof (cases "restore_loop (agent_scope sh) (required_names sh) l
    \<lparr>restore_map = [], var_names_left = set (required_names sh), unrestored = []\<rparr>")
  case (Inl e)
  then show ?thesis by (simp add: restore_from_checkpoint_def)
next
  case (Inr st)
  note inv = restore_loop_Inr[OF Inr]
  from inv have left: "var_names_left st =
      set (required_names sh) - rescope (agent_scope sh) ` set l"
    by auto
  from inv have unr: "unrestored st =
      filter (\<lambda>v. rescope (agent_scope sh) v \<notin> set (required_names sh) \<and> \<not> not_required v) l"
    by simp
  have a: "isl (restore_from_checkpoint sh l)"
    if "\<exists>n \<in> set (required_names sh). n \<notin> rescope (agent_scope sh) ` set l"
    using that Inr left by (auto simp: restore_from_checkpoint_def)
  have b: "isl (restore_from_checkpoint sh l)"
    if "\<exists>v \<in> set l. rescope (agent_scope sh) v \<notin> set (required_names sh) \<and> \<not> not_required v"
  proof -
    from that unr have "unrestored st \<noteq> []" by (auto simp: filter_empty_conv)
    with Inr show ?thesis by (simp add: restore_from_checkpoint_def)
  qed
  have c: "\<exists>v \<in> set l. rescope (agent_scope sh) v = n \<and>
         map_of m v = Some (index_of n (required_names sh))"
    if ok: "restore_from_checkpoint sh l = Inr m" and n: "n \<in> set (required_names sh)" for m n
  proof -
    from ok Inr have e: "var_names_left st = {}" and m: "m = restore_map st"
      by (auto simp: restore_from_checkpoint_def split: if_splits)
    from e left n obtain v where v: "v \<in> set l" "rescope (agent_scope sh) v = n" by auto
    with inv n m have "map_of m v = Some (index_of n (required_names sh))" by auto
    with v show ?thesis by blast
  qed
  from a b c show ?thesis by blast
qed

theorem restore_mismatch_fails_witness:
  "''shell/w'' \<in> set (required_names example_shell) \<and>
   ''shell/w'' \<notin> rescope (agent_scope example_shell) ` set [''learner/b''] \<and>
   isl (restore_from_checkpoint example_shell [''learner/b'']) \<and>
   ''learner/extra'' \<in> set [''learner/b'', ''learner/w'', ''learner/extra''] \<and>
   rescope (agent_scope example_shell) ''learner/extra'' \<notin> set (required_names example_shell) \<and>
   \<not> not_required ''learner/extra'' \<and>
   isl (restore_from_checkpoint example_shell [''learner/b'', ''learner/w'', ''learner/extra'']) \<and>
   restore_from_checkpoint example_shell [''learner/b'', ''learner/w'', ''learner/w/Adam'']
     = Inr [(''learner/b'', 1), (''learner/w'', 0)] \<and>
   rescope (agent_scope example_shell) ''learner/w'' = ''shell/w'' \<and>
   map_of [(''learner/b'', 1), (''learner/w'', 0::nat)] ''learner/w''
     = Some (index_of ''shell/w'' (required_names example_shell))"
proof -
  have req: "required_names example_shell = [''shell/w'', ''shell/b'']"
    by (simp add: required_names_def example_shell_def strip_output_index_def)
  have sc: "agent_scope example_shell = ''shell''"
    by (simp add: example_shell_def)
  have r1: "rescope ''shell'' ''learner/b'' = ''shell/b''"
    and r2: "rescope ''shell'' ''learner/extra'' = ''shell/extra''"
    and r3: "rescope ''shell'' ''learner/w'' = ''shell/w''"
    by (simp_all add: rescope_def)
  have nr: "\<not> not_required ''learner/extra''"
    by code_simp
  have ok: "restore_from_checkpoint example_shell [''learner/b'', ''learner/w'', ''learner/w/Adam'']
     = Inr [(''learner/b'', 1), (''learner/w'', 0)]"
    by code_simp
  from restore_mismatch_fails [of example_shell "[''learner/b'']"]
  have m: "isl (restore_from_checkpoint example_shell [''learner/b''])"
    by (simp add: req sc r1)
  from restore_mismatch_fails
    [of example_shell "[''learner/b'', ''learner/w'', ''learner/extra'']"] nr
  have x: "isl (restore_from_checkpoint example_shell
      [''learner/b'', ''learner/w'', ''learner/extra''])"
    by (simp add: req sc r2)
  from restore_mismatch_fails
    [of example_shell "[''learner/b'', ''learner/w'', ''learner/w/Adam'']"] ok
  show ?thesis using m x nr by (simp add: req sc r1 r2 r3)
qed

section \<open>The experience collector (\<open>distributed/exp_collector.py\<close>)\<close>

subsection \<open>Experience records\<close>

text \<open>
  What the collector receives is a nested structure of Python values. The resolver
  distinguishes lists, dicts and strings (by \<open>isinstance\<close>) from everything else:
  \<^item> \<open>PList\<close>: a list;
  \<^item> \<open>PDict\<close>: a dict with string keys, as an association list in insertion order
    (a Python dict has distinct keys; the resolver calls \<open>key.endswith\<close>, so the keys
    are strings);
  \<^item> \<open>PStr\<close>: a string;
  \<^item> \<open>PObj\<close>: an object that can be weakly referenced, such as an array, given by
    its identity (two \<open>PObj\<close> are the same object exactly when the identities are equal);
  \<^item> \<open>PAtom\<close>: any other terminal (a number, \<open>None\<close>, a boolean), which cannot be
    weakly referenced.
  A message is a tree: no list or dict occurs in it twice.
\<close>

datatype pyval =
    PList "pyval list"
  | PDict "(string \<times> pyval) list"
  | PStr string
  | PObj nat
  | PAtom int

text \<open>
  The storage chunk sent with a message maps a hash to a payload. The collector's
  \<open>_weakref_map\<close> is a \<open>weakref.WeakValueDictionary\<close>: it maps a hash to an object it
  does not keep alive, so it is a map from hashes to object identities, and an entry
  disappears when its object is garbage-collected (\<open>expire\<close> below).
\<close>

type_synonym storage = "string \<rightharpoonup> pyval"
type_synonym weakrefs = "string \<rightharpoonup> nat"

text \<open>
  \<open>key.endswith('_hash')\<close> and \<open>key[:-len('_hash')]\<close> (the latter is only evaluated
  for a key with the suffix, which has at least five characters).
\<close>

definition ends_hash :: "string \<Rightarrow> bool" where
  "ends_hash key \<longleftrightarrow> suffix ''_hash'' key"

definition strip_hash :: "string \<Rightarrow> string" where
  "strip_hash key = take (length key - length ''_hash'') key"

subsection \<open>The resolver\<close>

text \<open>
  Sizes of values, lists and dicts, for the termination proof of the resolver: the loop
  over the keys of a dict reads each value from the dict as the earlier iterations left
  it, so the recursion is not structural.
\<close>

fun vsize :: "pyval \<Rightarrow> nat" where
  "vsize (PList xs) = Suc (sum_list (map (\<lambda>x. Suc (vsize x)) xs))"
| "vsize (PDict d) = Suc (sum_list (map (\<lambda>kv. Suc (vsize (snd kv))) d))"
| "vsize (PStr h) = 0"
| "vsize (PObj i) = 0"
| "vsize (PAtom a) = 0"

definition dsize :: "(string \<times> pyval) list \<Rightarrow> nat" where
  "dsize d = sum_list (map (\<lambda>kv. Suc (vsize (snd kv))) d)"

definition lsize :: "pyval list \<Rightarrow> nat" where
  "lsize xs = sum_list (map (\<lambda>x. Suc (vsize x)) xs)"

lemma strip_hash_neq: "ends_hash key \<Longrightarrow> strip_hash key \<noteq> key"
proof
  assume e: "ends_hash key" and "strip_hash key = key"
  then have "length (strip_hash key) = length key" by simp
  moreover from e have "5 \<le> length key"
    using suffix_length_le[of "''_hash''" key] by (simp add: ends_hash_def)
  ultimately show False by (simp add: strip_hash_def)
qed

lemma dsize_lookup: "map_of d k = Some v \<Longrightarrow> vsize v < dsize d"
  by (induction d) (auto simp: dsize_def split: if_splits)

lemma dsize_update_le: "dsize (AList.update k v d) \<le> dsize d + Suc (vsize v)"
  by (induction d) (auto simp: dsize_def)

lemma dsize_update_present:
  "map_of d k = Some v0 \<Longrightarrow> dsize (AList.update k v d) + vsize v0 = dsize d + vsize v"
  by (induction d) (auto simp: dsize_def split: if_splits)

lemma dsize_delete_le:
  "map_of d k = Some v0 \<Longrightarrow> dsize (AList.delete k d) + Suc (vsize v0) \<le> dsize d"
proof (induction d)
  case Nil
  then show ?case by simp
next
  case (Cons p d)
  have le: "dsize (AList.delete k d) \<le> dsize d"
    by (induction d) (auto simp: dsize_def)
  show ?case
  proof (cases "fst p = k")
    case True
    with Cons.prems le show ?thesis by (cases p) (auto simp: dsize_def)
  next
    case False
    with Cons show ?thesis by (cases p) (auto simp: dsize_def)
  qed
qed

lemma dsize_hash_step:
  assumes "map_of d key = Some v" and "vsize v' \<le> vsize v" and "ends_hash key"
  shows "dsize (AList.delete key (AList.update (strip_hash key) v' d)) \<le> dsize d"
proof -
  let ?d1 = "AList.update (strip_hash key) v' d"
  from assms(1,3) have "map_of ?d1 key = Some v"
    using strip_hash_neq[of key] by (simp add: update_conv')
  from dsize_delete_le[OF this] have "dsize (AList.delete key ?d1) + Suc (vsize v) \<le> dsize ?d1" .
  also have "\<dots> \<le> dsize d + Suc (vsize v')" by (rule dsize_update_le)
  finally show ?thesis using assms(2) by simp
qed

lemma dsize_plain_step:
  assumes "map_of d key = Some v" and "vsize v' \<le> vsize v"
  shows "dsize (AList.update key v' d) \<le> dsize d"
  using dsize_update_present[OF assms(1), of v'] assms(2) by simp

text \<open>
  \<^verbatim>\<open>
  def _retrieve_storage(self, exp, storage):
    if isinstance(exp, list):
      for i, e in enumerate(exp):
        exp[i] = self._retrieve_storage(e, storage)

    elif isinstance(exp, dict):
      for key in list(exp.keys()):  # copy keys
        if key.endswith('_hash'):
          new_key = key[:-len('_hash')]  # delete suffix
          exp[new_key] = self._retrieve_storage(exp[key], storage)
          del exp[key]
        else:
          exp[key] = self._retrieve_storage(exp[key], storage)

    elif isinstance(exp, str):
      exphash = exp
      if exphash in self._weakref_map:
        return self._weakref_map[exphash]
      else:
        self._weakref_map[exphash] = storage[exphash]
        return storage[exphash]

    return exp
  \<close>
  The function takes the weak-reference map and returns it updated, with the resolved
  value; \<open>Inl\<close> is the exception raised. \<open>retrieve_list\<close> is the loop over a list and
  \<open>retrieve_keys\<close> the loop over the copied keys of a dict, which carries the dict as
  mutated so far: \<open>exp[new_key] = v\<close> replaces the value of an existing key in place and
  appends a new key (\<open>AList.update\<close>), \<open>del exp[key]\<close> removes the key
  (\<open>AList.delete\<close>), and \<open>exp[key]\<close> raises KeyError for a missing key. In the string
  branch, \<open>storage[exphash]\<close> raises KeyError for a hash the chunk does not have, and
  storing into the \<open>WeakValueDictionary\<close> raises TypeError for a value that cannot be
  weakly referenced (a string, number, list, dict or \<open>None\<close>).
\<close>

function retrieve_storage :: "weakrefs \<Rightarrow> storage \<Rightarrow> pyval \<Rightarrow> error + pyval \<times> weakrefs"
  and retrieve_list :: "weakrefs \<Rightarrow> storage \<Rightarrow> pyval list \<Rightarrow> error + pyval list \<times> weakrefs"
  and retrieve_keys :: "weakrefs \<Rightarrow> storage \<Rightarrow> string list \<Rightarrow> (string \<times> pyval) list
        \<Rightarrow> error + (string \<times> pyval) list \<times> weakrefs"
  where
  "retrieve_storage c st (PList xs) =
     (case retrieve_list c st xs of
        Inl e \<Rightarrow> Inl e
      | Inr (ys, c') \<Rightarrow> Inr (PList ys, c'))"
| "retrieve_storage c st (PDict d) =
     (case retrieve_keys c st (map fst d) d of
        Inl e \<Rightarrow> Inl e
      | Inr (d', c') \<Rightarrow> Inr (PDict d', c'))"
| "retrieve_storage c st (PStr exphash) =
     (case c exphash of
        Some i \<Rightarrow> Inr (PObj i, c)
      | None \<Rightarrow>
          (case st exphash of
             None \<Rightarrow> Inl KeyError
           | Some (PObj i) \<Rightarrow> Inr (PObj i, c(exphash \<mapsto> i))
           | Some _ \<Rightarrow> Inl TypeError))"
| "retrieve_storage c st (PObj i) = Inr (PObj i, c)"
| "retrieve_storage c st (PAtom a) = Inr (PAtom a, c)"
| "retrieve_list c st [] = Inr ([], c)"
| "retrieve_list c st (e # es) =
     (case retrieve_storage c st e of
        Inl err \<Rightarrow> Inl err
      | Inr (e', c') \<Rightarrow>
          (case retrieve_list c' st es of
             Inl err \<Rightarrow> Inl err
           | Inr (es', c'') \<Rightarrow> Inr (e' # es', c'')))"
| "retrieve_keys c st [] d = Inr (d, c)"
| "retrieve_keys c st (key # keys) d =
     (case map_of d key of
        None \<Rightarrow> Inl KeyError
      | Some v \<Rightarrow>
          (case retrieve_storage c st v of
             Inl err \<Rightarrow> Inl err
           | Inr (v', c') \<Rightarrow>
               if ends_hash key
               then retrieve_keys c' st keys
                      (AList.delete key (AList.update (strip_hash key) v' d))
               else retrieve_keys c' st keys (AList.update key v' d)))"
  by pat_completeness auto


lemma retrieve_size_le:
  "retrieve_storage_retrieve_list_retrieve_keys_dom (Inl (c, st, v)) \<Longrightarrow>
     retrieve_storage c st v = Inr (v', c1) \<Longrightarrow> vsize v' \<le> vsize v"
  "retrieve_storage_retrieve_list_retrieve_keys_dom (Inr (Inl (c, st, es))) \<Longrightarrow>
     retrieve_list c st es = Inr (es', c2) \<Longrightarrow> lsize es' \<le> lsize es"
  "retrieve_storage_retrieve_list_retrieve_keys_dom (Inr (Inr (c, st, keys, d))) \<Longrightarrow>
     retrieve_keys c st keys d = Inr (d', c3) \<Longrightarrow> dsize d' \<le> dsize d"
proof (induction c st v and c st es and c st keys d arbitrary: v' c1 and es' c2 and d' c3
    rule: retrieve_storage_retrieve_list_retrieve_keys.pinduct)
  case (1 c st xs)
  then show ?case
    by (auto simp: retrieve_storage.psimps lsize_def split: sum.splits prod.splits)
next
  case (2 c st d)
  then show ?case
    by (auto simp: retrieve_storage.psimps dsize_def split: sum.splits prod.splits)
next
  case (3 c st exphash)
  then show ?case
    by (auto simp: retrieve_storage.psimps split: option.splits pyval.splits)
next
  case (4 c st i)
  then show ?case by (simp add: retrieve_storage.psimps)
next
  case (5 c st a)
  then show ?case by (simp add: retrieve_storage.psimps)
next
  case (6 c st)
  then show ?case by (simp add: retrieve_list.psimps)
next
  case (7 c st e es)
  from "7.prems" "7.hyps" obtain e1 ca es1 where
    a: "retrieve_storage c st e = Inr (e1, ca)" and
    b: "retrieve_list ca st es = Inr (es1, c2)" and
    c: "es' = e1 # es1"
    by (auto simp: retrieve_list.psimps split: sum.splits prod.splits)
  from "7.IH"(1)[OF a] "7.IH"(2)[OF a refl b] c show ?case
    by (simp add: lsize_def)
next
  case (8 c st d)
  then show ?case by (simp add: retrieve_keys.psimps)
next
  case (9 c st key keys d)
  from "9.prems" "9.hyps" obtain v v1 ca where
    m: "map_of d key = Some v" and
    a: "retrieve_storage c st v = Inr (v1, ca)"
    by (auto simp: retrieve_keys.psimps split: option.splits sum.splits prod.splits)
  from "9.IH"(1)[OF m a] have le: "vsize v1 \<le> vsize v" .
  show ?case
  proof (cases "ends_hash key")
    case True
    with "9.prems" "9.hyps" m a have
      "retrieve_keys ca st keys (AList.delete key (AList.update (strip_hash key) v1 d)) = Inr (d', c3)"
      by (simp add: retrieve_keys.psimps)
    from "9.IH"(2)[OF m a refl True this] dsize_hash_step[OF m le True]
    show ?thesis by simp
  next
    case False
    with "9.prems" "9.hyps" m a have
      "retrieve_keys ca st keys (AList.update key v1 d) = Inr (d', c3)"
      by (simp add: retrieve_keys.psimps)
    from "9.IH"(3)[OF m a refl False this] dsize_plain_step[OF m le]
    show ?thesis by simp
  qed
qed

termination retrieve_storage
proof (relation "measures
    [\<lambda>x. case x of Inl (c, st, v) \<Rightarrow> vsize v
                 | Inr (Inl (c, st, es)) \<Rightarrow> lsize es
                 | Inr (Inr (c, st, keys, d)) \<Rightarrow> dsize d,
     \<lambda>x. case x of Inl (c, st, v) \<Rightarrow> 0
                 | Inr (Inl (c, st, es)) \<Rightarrow> 0
                 | Inr (Inr (c, st, keys, d)) \<Rightarrow> length keys]", goal_cases)
  case 1
  show ?case by simp
next
  case (2 c st xs)
  show ?case by (simp add: lsize_def)
next
  case (3 c st d)
  show ?case by (simp add: dsize_def)
next
  case (4 c st e es)
  show ?case by (simp add: lsize_def)
next
  case (5 c st e es b x y)
  show ?case by (simp add: lsize_def)
next
  case (6 c st key keys d v)
  then show ?case by (simp add: dsize_lookup)
next
  case (7 c st key keys d v b v' c')
  then have "vsize v' \<le> vsize v" using retrieve_size_le(1)[of c st v v' c'] by simp
  from dsize_hash_step[OF 7(1) this 7(4)] show ?case by auto
next
  case (8 c st key keys d v b v' c')
  then have "vsize v' \<le> vsize v" using retrieve_size_le(1)[of c st v v' c'] by simp
  from dsize_plain_step[OF 8(1) this] show ?case by auto
qed

subsection \<open>The server loop\<close>

text \<open>
  \<^verbatim>\<open>
  def run(self):
    self._weakref_map = weakref.WeakValueDictionary()
    self.receiver = ZmqReceiver(...)
    while True:
      exp, storage = self.receiver.recv()
      experience_list = self._retrieve_storage(exp, storage)
      for exp in experience_list:
        self._exp_handler(exp)
  \<close>
  The state of the collector is the weak-reference map and the log of the values the
  experience handler has been called with, in order. The loop has no exit and no
  exception handler: it consumes what the environment delivers, which is a message from
  the receiver or, between two messages, the garbage collection of some objects, whose
  entries then leave the weak-reference map. \<open>run\<close> is the loop on a finite sequence of
  such events: it returns \<open>None\<close> and the state when the loop is waiting for the next
  message, and the exception and the state before the message that raised it when the
  loop has ended with an exception (it then consumes no further event).

  \<open>for exp in experience_list\<close> iterates over the elements of a list, over the keys
  of a dict and over the characters of a string. A number, \<open>None\<close> or a boolean is
  not iterable (TypeError). What iterating any other object yields depends on the object
  (an array yields its rows, an array without dimensions raises TypeError): the loop takes
  it as the parameter \<open>iter_obj\<close>, which gives for the identity of an object the
  values its iteration yields, or the exception it raises.
\<close>

record collector =
  weakref_map :: weakrefs
  handled :: "pyval list"

datatype event = Recv pyval storage | Collected "nat set"

definition expire :: "nat set \<Rightarrow> weakrefs \<Rightarrow> weakrefs" where
  "expire dead c = (\<lambda>h. case c h of None \<Rightarrow> None | Some i \<Rightarrow> if i \<in> dead then None else Some i)"

fun units_of :: "(nat \<Rightarrow> error + pyval list) \<Rightarrow> pyval \<Rightarrow> error + pyval list" where
  "units_of iter_obj (PList es) = Inr es"
| "units_of iter_obj (PDict d) = Inr (map (\<lambda>kv. PStr (fst kv)) d)"
| "units_of iter_obj (PStr s) = Inr (map (\<lambda>ch. PStr [ch]) s)"
| "units_of iter_obj (PObj i) = iter_obj i"
| "units_of iter_obj (PAtom a) = Inl TypeError"

definition serve ::
  "(nat \<Rightarrow> error + pyval list) \<Rightarrow> collector \<Rightarrow> pyval \<Rightarrow> storage \<Rightarrow> error + collector" where
  "serve iter_obj col exp storage =
     (case retrieve_storage (weakref_map col) storage exp of
        Inl err \<Rightarrow> Inl err
      | Inr (experience_list, c') \<Rightarrow>
          (case units_of iter_obj experience_list of
             Inl err \<Rightarrow> Inl err
           | Inr units \<Rightarrow> Inr \<lparr>weakref_map = c', handled = handled col @ units\<rparr>))"

fun run ::
  "(nat \<Rightarrow> error + pyval list) \<Rightarrow> collector \<Rightarrow> event list \<Rightarrow> error option \<times> collector" where
  "run iter_obj col [] = (None, col)"
| "run iter_obj col (Recv exp storage # evs) =
     (case serve iter_obj col exp storage of
        Inl err \<Rightarrow> (Some err, col)
      | Inr col' \<Rightarrow> run iter_obj col' evs)"
| "run iter_obj col (Collected dead # evs) =
     run iter_obj (col\<lparr>weakref_map := expire dead (weakref_map col)\<rparr>) evs"

definition collector_start :: collector where
  "collector_start = \<lparr>weakref_map = Map.empty, handled = []\<rparr>"

text \<open>The case that no object is iterable, used for concrete inputs below.\<close>

definition not_iterable :: "nat \<Rightarrow> error + pyval list" where
  "not_iterable i = Inl TypeError"

text \<open>
  Strings the resolver will look up in a value: the value itself when it is a string,
  the strings it will look up in an element of a list, and those in the value of a dict
  entry with key \<open>k\<close>, unless the key \<open>k_hash\<close> comes before \<open>k\<close> in the dict:
  handling \<open>k_hash\<close> then overwrites the entry of \<open>k\<close> before it is read.
\<close>

fun reaches :: "pyval \<Rightarrow> string \<Rightarrow> bool" where
  "reaches (PStr s) h \<longleftrightarrow> s = h"
| "reaches (PList es) h \<longleftrightarrow> (\<exists>e \<in> set es. reaches e h)"
| "reaches (PDict d) h \<longleftrightarrow>
     distinct (map fst d) \<and>
     (\<exists>kv \<in> set d.
        fst kv @ ''_hash'' \<notin> fst ` set (takeWhile (\<lambda>p. fst p \<noteq> fst kv) d) \<and>
        reaches (snd kv) h)"
| "reaches (PObj i) h \<longleftrightarrow> False"
| "reaches (PAtom a) h \<longleftrightarrow> False"

text \<open>
  A hash reference to \<open>h\<close> in a message: the string \<open>h\<close> as the value of a key that
  ends in \<open>_hash\<close>, in a dict at any depth of the message, where on the way to it no
  entry is overwritten before it is read (no dict on the way holds, before the key
  \<open>k\<close> that leads on, the key \<open>k_hash\<close>).
\<close>

fun holds_hash_ref :: "pyval \<Rightarrow> string \<Rightarrow> bool" where
  "holds_hash_ref (PList es) h \<longleftrightarrow> (\<exists>e \<in> set es. holds_hash_ref e h)"
| "holds_hash_ref (PDict d) h \<longleftrightarrow>
     distinct (map fst d) \<and>
     (\<exists>kv \<in> set d.
        fst kv @ ''_hash'' \<notin> fst ` set (takeWhile (\<lambda>p. fst p \<noteq> fst kv) d) \<and>
        (ends_hash (fst kv) \<and> snd kv = PStr h \<or> holds_hash_ref (snd kv) h))"
| "holds_hash_ref (PStr s) h \<longleftrightarrow> False"
| "holds_hash_ref (PObj i) h \<longleftrightarrow> False"
| "holds_hash_ref (PAtom a) h \<longleftrightarrow> False"

text \<open>
  A hash reference in a dict \<open>d\<close>: a key \<open>k\<close> with the suffix that holds the string
  hash \<open>h\<close>, in a dict (with distinct keys, as every Python dict) that has no key
  \<open>k_hash\<close> and, when the name of \<open>k\<close> without the suffix ends in \<open>_hash\<close>
  itself, does not have that name as a key.
\<close>

definition hash_ref :: "(string \<times> pyval) list \<Rightarrow> string \<Rightarrow> string \<Rightarrow> bool" where
  "hash_ref d k h \<longleftrightarrow>
     distinct (map fst d) \<and> (k, PStr h) \<in> set d \<and> ends_hash k \<and>
     k @ ''_hash'' \<notin> fst ` set d \<and>
     (ends_hash (strip_hash k) \<longrightarrow> strip_hash k \<notin> fst ` set d)"

text \<open>
  How the weak-reference map changes during a call: entries are only added, and an added
  entry is the payload the storage chunk has for the hash.
\<close>

definition cache_grows :: "weakrefs \<Rightarrow> storage \<Rightarrow> weakrefs \<Rightarrow> bool" where
  "cache_grows c st c' \<longleftrightarrow>
     (\<forall>h i. c h = Some i \<longrightarrow> c' h = Some i) \<and>
     (\<forall>h i. c' h = Some i \<longrightarrow> c h = Some i \<or> st h = Some (PObj i))"

text \<open>Two messages used as concrete inputs below.\<close>

definition good_message :: pyval where
  "good_message = PList [PDict [(''obs_hash'', PStr ''h1'')], PDict [(''r'', PAtom 3)]]"

definition bad_message :: pyval where
  "bad_message = PList [PDict [(''obs_hash'', PStr ''gone'')]]"

definition shadowed_message :: pyval where
  "shadowed_message = PList [PDict [(''a_hash_hash'', PStr ''h1''), (''a_hash'', PStr ''gone'')]]"

subsection \<open>How the weak-reference map and the dict change\<close>

lemma cache_grows_refl: "cache_grows c st c"
  by (simp add: cache_grows_def)

lemma cache_grows_trans:
  "cache_grows c st c1 \<Longrightarrow> cache_grows c1 st c2 \<Longrightarrow> cache_grows c st c2"
  unfolding cache_grows_def by blast

lemma cache_grows_str:
  "retrieve_storage c st (PStr h) = Inr (v', c') \<Longrightarrow> cache_grows c st c'"
  by (auto simp: cache_grows_def split: option.splits pyval.splits if_splits)

lemma retrieve_cache_grows:
  "retrieve_storage c st v = Inr (v', c1) \<Longrightarrow> cache_grows c st c1"
  "retrieve_list c st es = Inr (es', c2) \<Longrightarrow> cache_grows c st c2"
  "retrieve_keys c st keys d = Inr (d', c3) \<Longrightarrow> cache_grows c st c3"
proof (induction c st v and c st es and c st keys d arbitrary: v' c1 and es' c2 and d' c3
    rule: retrieve_storage_retrieve_list_retrieve_keys.induct)
  case (1 c st xs)
  then show ?case by (auto split: sum.splits prod.splits)
next
  case (2 c st d)
  then show ?case by (auto split: sum.splits prod.splits)
next
  case (3 c st exphash)
  then show ?case by (rule cache_grows_str)
next
  case (4 c st i)
  then show ?case by (simp add: cache_grows_refl)
next
  case (5 c st a)
  then show ?case by (simp add: cache_grows_refl)
next
  case (6 c st)
  then show ?case by (simp add: cache_grows_refl)
next
  case (7 c st e es)
  from "7.prems" obtain e1 ca es1 where
    a: "retrieve_storage c st e = Inr (e1, ca)" and
    b: "retrieve_list ca st es = Inr (es1, c2)"
    by (auto split: sum.splits prod.splits)
  from "7.IH"(1)[OF a] "7.IH"(2)[OF a refl b] show ?case
    by (rule cache_grows_trans)
next
  case (8 c st d)
  then show ?case by (simp add: cache_grows_refl)
next
  case (9 c st key keys d)
  from "9.prems" obtain v v1 ca where
    m: "map_of d key = Some v" and
    a: "retrieve_storage c st v = Inr (v1, ca)"
    by (auto split: option.splits sum.splits prod.splits)
  from "9.IH"(1)[OF m a] have g: "cache_grows c st ca" .
  show ?case
  proof (cases "ends_hash key")
    case True
    with "9.prems" m a have
      "retrieve_keys ca st keys (AList.delete key (AList.update (strip_hash key) v1 d)) = Inr (d', c3)"
      by simp
    from "9.IH"(2)[OF m a refl True this] g show ?thesis
      by (blast intro: cache_grows_trans)
  next
    case False
    with "9.prems" m a have
      "retrieve_keys ca st keys (AList.update key v1 d) = Inr (d', c3)"
      by simp
    from "9.IH"(3)[OF m a refl False this] g show ?thesis
      by (blast intro: cache_grows_trans)
  qed
qed

lemma cache_grows_None:
  "cache_grows c st c' \<Longrightarrow> c h = None \<Longrightarrow> st h = None \<Longrightarrow> c' h = None"
  unfolding cache_grows_def by (metis option.exhaust option.distinct(1))

text \<open>One iteration of the loop over the keys, as an elimination rule.\<close>

lemma retrieve_keys_ConsE:
  assumes "retrieve_keys c st (key # keys) d = Inr (d', c')"
  obtains v v1 c1 where
    "map_of d key = Some v"
    "retrieve_storage c st v = Inr (v1, c1)"
    "retrieve_keys c1 st keys
       (if ends_hash key then AList.delete key (AList.update (strip_hash key) v1 d)
        else AList.update key v1 d) = Inr (d', c')"
  using assms by (auto split: option.splits sum.splits prod.splits if_splits)

lemma retrieve_keys_frame:
  "retrieve_keys c st keys d = Inr (d', c') \<Longrightarrow> x \<notin> set keys \<Longrightarrow>
   (\<forall>k \<in> set keys. ends_hash k \<longrightarrow> strip_hash k \<noteq> x) \<Longrightarrow>
   map_of d' x = map_of d x"
proof (induction keys arbitrary: c d)
  case Nil
  then show ?case by simp
next
  case (Cons key keys)
  from Cons.prems(1) obtain v v1 c1 where
    rest: "retrieve_keys c1 st keys
       (if ends_hash key then AList.delete key (AList.update (strip_hash key) v1 d)
        else AList.update key v1 d) = Inr (d', c')"
    by (rule retrieve_keys_ConsE)
  from Cons.IH[OF rest] Cons.prems(2,3) show ?case
    by (auto simp: update_conv' delete_conv' split: if_splits)
qed

lemma retrieve_keys_keeps_obj:
  "retrieve_keys c st keys d = Inr (d', c') \<Longrightarrow> map_of d x = Some (PObj i) \<Longrightarrow>
   (ends_hash x \<longrightarrow> x \<notin> set keys) \<Longrightarrow>
   (\<forall>k \<in> set keys. ends_hash k \<longrightarrow> strip_hash k \<noteq> x) \<Longrightarrow>
   map_of d' x = Some (PObj i)"
proof (induction keys arbitrary: c d)
  case Nil
  then show ?case by simp
next
  case (Cons key keys)
  from Cons.prems(1) obtain v v1 c1 where
    m: "map_of d key = Some v" and
    a: "retrieve_storage c st v = Inr (v1, c1)" and
    rest: "retrieve_keys c1 st keys
       (if ends_hash key then AList.delete key (AList.update (strip_hash key) v1 d)
        else AList.update key v1 d) = Inr (d', c')"
    by (rule retrieve_keys_ConsE)
  let ?d1 = "if ends_hash key then AList.delete key (AList.update (strip_hash key) v1 d)
        else AList.update key v1 d"
  have "map_of ?d1 x = Some (PObj i)"
  proof (cases "key = x")
    case True
    with Cons.prems(3) have nh: "\<not> ends_hash key" by auto
    from True m Cons.prems(2) have "v = PObj i" by simp
    with a have "v1 = PObj i" by simp
    with nh True show ?thesis by (simp add: update_conv')
  next
    case False
    with Cons.prems(2,4) show ?thesis
      by (auto simp: update_conv' delete_conv')
  qed
  from Cons.IH[OF rest this] Cons.prems(3,4) show ?case by auto
qed

lemma ends_hash_decomp: "ends_hash k \<Longrightarrow> k = strip_hash k @ ''_hash''"
  by (auto simp: ends_hash_def strip_hash_def suffix_def)

lemma ends_hash_append [simp]: "ends_hash (n @ ''_hash'')"
  unfolding ends_hash_def by (rule suffixI) (rule refl)

lemma strip_hash_append [simp]: "strip_hash (n @ ''_hash'') = n"
  by (simp add: strip_hash_def)

lemma strip_hash_inj:
  "ends_hash k \<Longrightarrow> ends_hash k' \<Longrightarrow> strip_hash k = strip_hash k' \<Longrightarrow> k = k'"
  using ends_hash_decomp[of k] ends_hash_decomp[of k'] by simp

lemma retrieve_str_result:
  assumes "retrieve_storage c st (PStr h) = Inr (v', c')"
  obtains i where "v' = PObj i" "c' h = Some i"
    "c h = Some i \<or> c h = None \<and> st h = Some (PObj i)"
  using assms by (auto split: option.splits pyval.splits)

lemmas hash_eval = ends_hash_def strip_hash_def suffix_to_prefix

subsection \<open>Keys with the hash suffix, and plain strings\<close>

lemma retrieve_keys_hash_key:
  "retrieve_keys c st keys d = Inr (d', c') \<Longrightarrow> distinct keys \<Longrightarrow> k \<in> set keys \<Longrightarrow>
   ends_hash k \<Longrightarrow> map_of d k = Some (PStr h) \<Longrightarrow> k @ ''_hash'' \<notin> set keys \<Longrightarrow>
   (ends_hash (strip_hash k) \<longrightarrow> strip_hash k \<notin> set keys) \<Longrightarrow>
   \<exists>i. (c h = Some i \<or> c h = None \<and> st h = Some (PObj i)) \<and> c' h = Some i \<and>
       map_of d' (strip_hash k) = Some (PObj i) \<and> map_of d' k = None"
proof (induction keys arbitrary: c d)
  case Nil
  then show ?case by simp
next
  case (Cons key keys)
  from Cons.prems(1) obtain v v1 c1 where
    m: "map_of d key = Some v" and
    a: "retrieve_storage c st v = Inr (v1, c1)" and
    rest: "retrieve_keys c1 st keys
       (if ends_hash key then AList.delete key (AList.update (strip_hash key) v1 d)
        else AList.update key v1 d) = Inr (d', c')"
    by (rule retrieve_keys_ConsE)
  let ?d1 = "if ends_hash key then AList.delete key (AList.update (strip_hash key) v1 d)
        else AList.update key v1 d"
  show ?case
  proof (cases "key = k")
    case True
    with m Cons.prems(5) have "v = PStr h" by simp
    with a have "retrieve_storage c st (PStr h) = Inr (v1, c1)" by simp
    then obtain i where i: "v1 = PObj i" "c1 h = Some i"
      "c h = Some i \<or> c h = None \<and> st h = Some (PObj i)"
      by (rule retrieve_str_result)
    from True Cons.prems(4) have d1: "?d1 = AList.delete k (AList.update (strip_hash k) (PObj i) d)"
      by (simp add: i)
    from Cons.prems(4) have ne: "strip_hash k \<noteq> k" by (rule strip_hash_neq)
    have s1: "map_of ?d1 (strip_hash k) = Some (PObj i)"
      unfolding d1 using ne by (simp add: update_conv' delete_conv')
    have k1: "map_of ?d1 k = None"
      unfolding d1 by (simp add: delete_conv')
    from Cons.prems(2) True have kn: "k \<notin> set keys" by simp
    have inj: "\<forall>k2 \<in> set keys. ends_hash k2 \<longrightarrow> strip_hash k2 \<noteq> strip_hash k"
      using kn Cons.prems(4) strip_hash_inj by blast
    have nk: "\<forall>k2 \<in> set keys. ends_hash k2 \<longrightarrow> strip_hash k2 \<noteq> k"
    proof (intro ballI impI notI)
      fix k2 assume "k2 \<in> set keys" "ends_hash k2" "strip_hash k2 = k"
      with ends_hash_decomp[of k2] have "k @ ''_hash'' \<in> set keys" by simp
      with Cons.prems(6) show False by simp
    qed
    from retrieve_keys_keeps_obj[OF rest s1 _ inj] Cons.prems(7)
    have r1: "map_of d' (strip_hash k) = Some (PObj i)" by simp
    from retrieve_keys_frame[OF rest kn nk] k1
    have r2: "map_of d' k = None" by simp
    from retrieve_cache_grows(3)[OF rest] i(2) have "c' h = Some i"
      by (simp add: cache_grows_def)
    with i(3) r1 r2 show ?thesis by blast
  next
    case False
    with Cons.prems(3) have kin: "k \<in> set keys" by simp
    have "strip_hash key \<noteq> k" if "ends_hash key"
    proof
      assume "strip_hash key = k"
      with ends_hash_decomp[OF that] have "key = k @ ''_hash''" by simp
      with Cons.prems(6) show False by simp
    qed
    with False Cons.prems(5) have m1: "map_of ?d1 k = Some (PStr h)"
      by (auto simp: update_conv' delete_conv')
    from Cons.IH[OF rest _ kin Cons.prems(4) m1] Cons.prems(2,6,7)
    obtain i where i: "c1 h = Some i \<or> c1 h = None \<and> st h = Some (PObj i)"
      "c' h = Some i" "map_of d' (strip_hash k) = Some (PObj i)" "map_of d' k = None"
      by auto
    from retrieve_cache_grows(1)[OF a] i(1)
    have "c h = Some i \<or> c h = None \<and> st h = Some (PObj i)"
      unfolding cache_grows_def by (metis option.exhaust option.inject)
    with i show ?thesis by blast
  qed
qed

text \<open>
  How a key with the suffix is handled, seen from outside the loop. Let resolve return for
  a dict and a storage chunk, and let \<open>k\<close> be a key of the dict that ends in \<open>_hash\<close>
  and holds a string hash \<open>h\<close>, such that the dict has no key \<open>k_hash\<close> and, when the
  name of \<open>k\<close> without the suffix ends in \<open>_hash\<close> itself, does not have that name as
  a key. Then \<open>h\<close> was looked up first in the weak-reference map and then in the storage
  chunk, the object found is in the weak-reference map under \<open>h\<close> afterwards, the
  resolved dict holds that object under the key without the suffix, and \<open>k\<close> is no
  longer a key of it. The resolver handles every nested dict by a call of its own, so
  this holds for the dicts at every depth of a record.
\<close>

lemma retrieve_hash_key:
  assumes "retrieve_storage c st (PDict d) = Inr (r, c')"
    and "distinct (map fst d)"
    and "(k, PStr h) \<in> set d" and "ends_hash k"
    and "k @ ''_hash'' \<notin> fst ` set d"
    and "ends_hash (strip_hash k) \<longrightarrow> strip_hash k \<notin> fst ` set d"
  shows "\<exists>d' i. r = PDict d' \<and>
           (c h = Some i \<or> c h = None \<and> st h = Some (PObj i)) \<and> c' h = Some i \<and>
           map_of d' (strip_hash k) = Some (PObj i) \<and> k \<notin> fst ` set d'"
proof -
  from assms(1) obtain d' where r: "r = PDict d'" and
    ks: "retrieve_keys c st (map fst d) d = Inr (d', c')"
    by (auto split: sum.splits prod.splits)
  from assms(2,3) have m: "map_of d k = Some (PStr h)" by simp
  from assms(3) have kin: "k \<in> set (map fst d)" by force
  from retrieve_keys_hash_key[OF ks assms(2) kin assms(4) m] assms(5,6)
  obtain i where "c h = Some i \<or> c h = None \<and> st h = Some (PObj i)" "c' h = Some i"
    "map_of d' (strip_hash k) = Some (PObj i)" "map_of d' k = None"
    by auto
  with r show ?thesis by (auto simp: map_of_eq_None_iff)
qed

text \<open>The lemma \<open>retrieve_hash_key\<close> at a concrete dict.\<close>

lemma retrieve_hash_key_example:
  "retrieve_storage Map.empty [''h1'' \<mapsto> PObj 7]
       (PDict [(''obs_hash'', PStr ''h1''), (''r'', PAtom 3)]) =
     Inr (PDict [(''r'', PAtom 3), (''obs'', PObj 7)], [''h1'' \<mapsto> 7]) \<and>
   distinct (map fst [(''obs_hash'', PStr ''h1''), (''r'', PAtom 3)]) \<and>
   (''obs_hash'', PStr ''h1'') \<in> set [(''obs_hash'', PStr ''h1''), (''r'', PAtom 3)] \<and>
   ends_hash ''obs_hash'' \<and>
   ''obs_hash'' @ ''_hash'' \<notin> fst ` set [(''obs_hash'', PStr ''h1''), (''r'', PAtom 3)] \<and>
   \<not> ends_hash (strip_hash ''obs_hash'') \<and>
   (\<exists>d' i. PDict [(''r'', PAtom 3), (''obs'', PObj 7)] = PDict d' \<and>
      [''h1'' \<mapsto> PObj 7] ''h1'' = Some (PObj i) \<and> [''h1'' \<mapsto> 7::nat] ''h1'' = Some i \<and>
      map_of d' (strip_hash ''obs_hash'') = Some (PObj i) \<and> ''obs_hash'' \<notin> fst ` set d')"
proof -
  have r: "retrieve_storage Map.empty [''h1'' \<mapsto> PObj 7]
       (PDict [(''obs_hash'', PStr ''h1''), (''r'', PAtom 3)]) =
     Inr (PDict [(''r'', PAtom 3), (''obs'', PObj 7)], [''h1'' \<mapsto> 7])"
    by (simp add: hash_eval)
  have e: "ends_hash ''obs_hash''" and n: "\<not> ends_hash (strip_hash ''obs_hash'')"
    by (simp_all add: hash_eval)
  from retrieve_hash_key[OF r _ _ e, of "''h1''"] n
  show ?thesis using r e by (simp add: strip_hash_def)
qed

lemma hash_ref_resolved:
  assumes "retrieve_storage c st (PDict d) = Inr (r, c')" and "hash_ref d k h"
  shows "\<exists>d' i. r = PDict d' \<and>
           (c h = Some i \<or> c h = None \<and> st h = Some (PObj i)) \<and> c' h = Some i \<and>
           map_of d' (strip_hash k) = Some (PObj i) \<and> k \<notin> fst ` set d'"
  using assms retrieve_hash_key[of c st d r c' k h] by (simp add: hash_ref_def)

text \<open>
  Claim C1 at a failing input. The claim is that for every nested record and storage
  chunk each key ending in \<open>_hash\<close> is handled by looking its string hash up (in the
  weak-reference map, then in the chunk), caching the object, storing it under the key
  without the suffix and deleting the key. With the keys \<open>a_hash_hash\<close> and
  \<open>a_hash\<close> in one dict, in this order, handling the first key overwrites the entry of
  \<open>a_hash\<close> before it is read: the hash \<open>h2\<close> under \<open>a_hash\<close> is never looked up
  or cached, its payload is stored nowhere, and the payload of \<open>h1\<close> ends up under
  \<open>a\<close> instead of \<open>a_hash\<close>. With the same two entries in the other order both
  keys are handled as claimed.
\<close>

theorem colliding_hash_keys:
  "retrieve_storage Map.empty [''h1'' \<mapsto> PObj 7, ''h2'' \<mapsto> PObj 8]
     (PDict [(''a_hash_hash'', PStr ''h1''), (''a_hash'', PStr ''h2'')]) =
   Inr (PDict [(''a'', PObj 7)], [''h1'' \<mapsto> 7]) \<and>
   retrieve_storage Map.empty [''h1'' \<mapsto> PObj 7, ''h2'' \<mapsto> PObj 8]
     (PDict [(''a_hash'', PStr ''h2''), (''a_hash_hash'', PStr ''h1'')]) =
   Inr (PDict [(''a'', PObj 8), (''a_hash'', PObj 7)], [''h2'' \<mapsto> 8, ''h1'' \<mapsto> 7])"
  by (simp add: hash_eval)

text \<open>
  What does hold for values that are not strings: a terminal that is not a string is
  returned as it is, and a key without the suffix keeps its place and holds the
  resolution of its value afterwards (unless the dict also has that key with the suffix
  appended, whose handling writes to the same entry).
\<close>

lemma retrieve_terminal:
  "retrieve_storage c st (PObj i) = Inr (PObj i, c)"
  "retrieve_storage c st (PAtom a) = Inr (PAtom a, c)"
  by simp_all

lemma retrieve_keys_plain_key:
  "retrieve_keys c st keys d = Inr (d', c') \<Longrightarrow> distinct keys \<Longrightarrow> k \<in> set keys \<Longrightarrow>
   \<not> ends_hash k \<Longrightarrow> map_of d k = Some v \<Longrightarrow> k @ ''_hash'' \<notin> set keys \<Longrightarrow>
   \<exists>cj cj' v'. cache_grows c st cj \<and> retrieve_storage cj st v = Inr (v', cj') \<and>
       map_of d' k = Some v'"
proof (induction keys arbitrary: c d)
  case Nil
  then show ?case by simp
next
  case (Cons key keys)
  from Cons.prems(1) obtain w w1 c1 where
    m: "map_of d key = Some w" and
    a: "retrieve_storage c st w = Inr (w1, c1)" and
    rest: "retrieve_keys c1 st keys
       (if ends_hash key then AList.delete key (AList.update (strip_hash key) w1 d)
        else AList.update key w1 d) = Inr (d', c')"
    by (rule retrieve_keys_ConsE)
  let ?d1 = "if ends_hash key then AList.delete key (AList.update (strip_hash key) w1 d)
        else AList.update key w1 d"
  have nk: "strip_hash k2 \<noteq> k" if "k2 \<in> set (key # keys)" "ends_hash k2" for k2
  proof
    assume "strip_hash k2 = k"
    with ends_hash_decomp[OF that(2)] have "k2 = k @ ''_hash''" by simp
    with that(1) Cons.prems(6) show False by simp
  qed
  show ?case
  proof (cases "key = k")
    case True
    with m Cons.prems(5) have w: "w = v" by simp
    from True Cons.prems(4) have "map_of ?d1 k = Some w1" by (simp add: update_conv')
    moreover from Cons.prems(2) True have "k \<notin> set keys" by simp
    moreover have "\<forall>k2 \<in> set keys. ends_hash k2 \<longrightarrow> strip_hash k2 \<noteq> k"
      using nk by simp
    ultimately have "map_of d' k = Some w1"
      using retrieve_keys_frame[OF rest, of k] by simp
    with a w show ?thesis by (blast intro: cache_grows_refl)
  next
    case False
    with Cons.prems(3) have kin: "k \<in> set keys" by simp
    from False Cons.prems(5) nk[of key] have m1: "map_of ?d1 k = Some v"
      by (auto simp: update_conv' delete_conv')
    from Cons.IH[OF rest _ kin Cons.prems(4) m1] Cons.prems(2,6)
    obtain cj cj' v' where "cache_grows c1 st cj" "retrieve_storage cj st v = Inr (v', cj')"
      "map_of d' k = Some v'"
      by auto
    with retrieve_cache_grows(1)[OF a] show ?thesis
      by (blast intro: cache_grows_trans)
  qed
qed

lemma retrieve_plain_key:
  assumes "retrieve_storage c st (PDict d) = Inr (r, c')"
    and "distinct (map fst d)"
    and "(k, v) \<in> set d" and "\<not> ends_hash k"
    and "k @ ''_hash'' \<notin> fst ` set d"
  shows "\<exists>d' cj cj' v'. r = PDict d' \<and> cache_grows c st cj \<and>
           retrieve_storage cj st v = Inr (v', cj') \<and> map_of d' k = Some v'"
proof -
  from assms(1) obtain d' where r: "r = PDict d'" and
    ks: "retrieve_keys c st (map fst d) d = Inr (d', c')"
    by (auto split: sum.splits prod.splits)
  from assms(2,3) have m: "map_of d k = Some v" by simp
  from assms(3) have kin: "k \<in> set (map fst d)" by force
  from retrieve_keys_plain_key[OF ks assms(2) kin assms(4) m] assms(5) r
  show ?thesis by auto
qed

text \<open>
  Claim C3 at a failing input. A plain string under a key without the hash suffix does
  not pass through unchanged: the resolver treats every string it walks over as a hash.
  For \<open>{'name': 'bob'}\<close> it raises KeyError when no payload is stored under
  \<open>'bob'\<close>, and replaces the string by the payload when there is one.
\<close>

theorem plain_string_is_looked_up:
  "retrieve_storage Map.empty Map.empty (PDict [(''name'', PStr ''bob'')]) = Inl KeyError \<and>
   retrieve_storage Map.empty [''bob'' \<mapsto> PObj 7] (PDict [(''name'', PStr ''bob'')]) =
     Inr (PDict [(''name'', PObj 7)], [''bob'' \<mapsto> 7])"
  by (simp add: hash_eval)

subsection \<open>Dispatch of the units of a message\<close>

lemma retrieve_list_units:
  "retrieve_list c st es = Inr (es', c') \<Longrightarrow>
     length es' = length es \<and>
     (\<forall>j < length es. \<exists>cj cj'. cache_grows c st cj \<and>
        retrieve_storage cj st (es ! j) = Inr (es' ! j, cj') \<and> cache_grows cj' st c')"
proof (induction es arbitrary: c es')
  case Nil
  then show ?case by simp
next
  case (Cons e es)
  from Cons.prems obtain e1 c1 es1 where
    a: "retrieve_storage c st e = Inr (e1, c1)" and
    b: "retrieve_list c1 st es = Inr (es1, c')" and
    c: "es' = e1 # es1"
    by (auto split: sum.splits prod.splits)
  from Cons.IH[OF b] have len: "length es1 = length es" and
    ih: "\<And>j. j < length es \<Longrightarrow> \<exists>cj cj'. cache_grows c1 st cj \<and>
        retrieve_storage cj st (es ! j) = Inr (es1 ! j, cj') \<and> cache_grows cj' st c'"
    by auto
  have g: "cache_grows c st c1" using a by (rule retrieve_cache_grows(1))
  have g': "cache_grows c1 st c'" using b by (rule retrieve_cache_grows(2))
  have "\<exists>cj cj'. cache_grows c st cj \<and>
        retrieve_storage cj st ((e # es) ! j) = Inr (es' ! j, cj') \<and> cache_grows cj' st c'"
    if "j < length (e # es)" for j
  proof (cases j)
    case 0
    with a c g' show ?thesis by (auto intro: cache_grows_refl)
  next
    case (Suc j')
    with that have "j' < length es" by simp
    from ih[OF this] obtain cj cj' where
      "cache_grows c1 st cj" "retrieve_storage cj st (es ! j') = Inr (es1 ! j', cj')"
      "cache_grows cj' st c'"
      by blast
    with g Suc c show ?thesis by (auto intro: cache_grows_trans)
  qed
  with len c show ?case by simp
qed

lemma run_list_message:
  "run iter_obj col [Recv (PList es) st] = (None, col') \<longleftrightarrow>
     (\<exists>us c'. retrieve_list (weakref_map col) st es = Inr (us, c') \<and>
        col' = \<lparr>weakref_map = c', handled = handled col @ us\<rparr>)"
  by (auto simp: serve_def split: sum.splits prod.splits)

lemma serve_good:
  "serve not_iterable collector_start good_message [''h1'' \<mapsto> PObj 7] =
     Inr \<lparr>weakref_map = [''h1'' \<mapsto> 7],
          handled = [PDict [(''obs'', PObj 7)], PDict [(''r'', PAtom 3)]]\<rparr>"
  by (simp add: serve_def good_message_def collector_start_def hash_eval)

text \<open>
  Claim C5. When the payload of a message is a list of experience units and resolving it
  returns, the result is a list of the same length whose element at each position is the
  resolution of the unit at that position against the storage chunk of the message (with
  the weak-reference map as the earlier units left it), and the loop calls the handler
  with exactly these resolved units, once each, in list order, after the whole payload
  has been resolved.
\<close>

theorem run_dispatches_units:
  assumes "retrieve_storage (weakref_map col) storage (PList es) = Inr (r, c')"
  shows "\<exists>units. r = PList units \<and> length units = length es \<and>
           (\<forall>j < length es. \<exists>cj cj'. cache_grows (weakref_map col) storage cj \<and>
              retrieve_storage cj storage (es ! j) = Inr (units ! j, cj')) \<and>
           run iter_obj col [Recv (PList es) storage] =
             (None, \<lparr>weakref_map = c', handled = handled col @ units\<rparr>)"
proof -
  from assms obtain units where r: "r = PList units" and
    l: "retrieve_list (weakref_map col) storage es = Inr (units, c')"
    by (auto split: sum.splits prod.splits)
  from assms r have "run iter_obj col [Recv (PList es) storage] =
             (None, \<lparr>weakref_map = c', handled = handled col @ units\<rparr>)"
    by (simp add: serve_def)
  moreover from retrieve_list_units[OF l] have "length units = length es" and
    "\<forall>j < length es. \<exists>cj cj'. cache_grows (weakref_map col) storage cj \<and>
              retrieve_storage cj storage (es ! j) = Inr (units ! j, cj')"
    by blast+
  ultimately show ?thesis using r by blast
qed

theorem run_dispatches_units_witness:
  "retrieve_storage (weakref_map collector_start) [''h1'' \<mapsto> PObj 7] good_message =
     Inr (PList [PDict [(''obs'', PObj 7)], PDict [(''r'', PAtom 3)]], [''h1'' \<mapsto> 7]) \<and>
   run not_iterable collector_start [Recv good_message [''h1'' \<mapsto> PObj 7]] =
     (None, \<lparr>weakref_map = [''h1'' \<mapsto> 7],
             handled = handled collector_start @
               [PDict [(''obs'', PObj 7)], PDict [(''r'', PAtom 3)]]\<rparr>)"
proof -
  have r: "retrieve_storage (weakref_map collector_start) [''h1'' \<mapsto> PObj 7]
      (PList [PDict [(''obs_hash'', PStr ''h1'')], PDict [(''r'', PAtom 3)]]) =
     Inr (PList [PDict [(''obs'', PObj 7)], PDict [(''r'', PAtom 3)]], [''h1'' \<mapsto> 7])"
    by (simp add: collector_start_def hash_eval)
  from run_dispatches_units[OF r] show ?thesis using r by (auto simp: good_message_def)
qed

subsection \<open>A hash that resolves nowhere\<close>

lemma retrieve_missing_raises:
  "reaches v h \<Longrightarrow> c h = None \<Longrightarrow> st h = None \<Longrightarrow> isl (retrieve_storage c st v)"
  "\<exists>e \<in> set es. reaches e h \<Longrightarrow> c h = None \<Longrightarrow> st h = None \<Longrightarrow>
     isl (retrieve_list c st es)"
  "\<exists>k \<in> set keys. \<exists>v. map_of d k = Some v \<and> reaches v h \<and>
       k @ ''_hash'' \<notin> set (takeWhile (\<lambda>x. x \<noteq> k) keys) \<Longrightarrow>
     c h = None \<Longrightarrow> st h = None \<Longrightarrow> isl (retrieve_keys c st keys d)"
proof (induction c st v and c st es and c st keys d
    rule: retrieve_storage_retrieve_list_retrieve_keys.induct)
  case (1 c st xs)
  then show ?case by (auto split: sum.splits prod.splits)
next
  case (2 c st d)
  from "2.prems"(1) obtain k v where kv: "(k, v) \<in> set d"
    "k @ ''_hash'' \<notin> fst ` set (takeWhile (\<lambda>p. fst p \<noteq> k) d)"
    "reaches v h" and dist: "distinct (map fst d)"
    by auto
  from kv(1) dist have "map_of d k = Some v" by simp
  moreover from kv(1) have "k \<in> set (map fst d)" by force
  moreover have "set (takeWhile (\<lambda>x. x \<noteq> k) (map fst d)) =
      fst ` set (takeWhile (\<lambda>p. fst p \<noteq> k) d)"
    by (simp add: takeWhile_map comp_def)
  ultimately have "\<exists>k \<in> set (map fst d). \<exists>v. map_of d k = Some v \<and> reaches v h \<and>
      k @ ''_hash'' \<notin> set (takeWhile (\<lambda>x. x \<noteq> k) (map fst d))"
    using kv(2,3) by auto
  from "2.IH"[OF this "2.prems"(2,3)] show ?case
    by (auto split: sum.splits prod.splits)
next
  case (3 c st exphash)
  then show ?case by simp
next
  case (4 c st i)
  then show ?case by simp
next
  case (5 c st a)
  then show ?case by simp
next
  case (6 c st)
  then show ?case by simp
next
  case (7 c st e es)
  show ?case
  proof (cases "retrieve_storage c st e")
    case (Inl err)
    then show ?thesis by simp
  next
    case (Inr p)
    obtain e1 c1 where p: "p = (e1, c1)" by (cases p)
    from Inr p have a: "retrieve_storage c st e = Inr (e1, c1)" by simp
    have "\<not> reaches e h"
    proof
      assume "reaches e h"
      from "7.IH"(1)[OF this "7.prems"(2,3)] a show False by simp
    qed
    with "7.prems"(1) have ex: "\<exists>e \<in> set es. reaches e h" by auto
    from retrieve_cache_grows(1)[OF a] "7.prems"(2,3) have "c1 h = None"
      by (rule cache_grows_None)
    from "7.IH"(2)[OF a refl ex this "7.prems"(3)] a show ?thesis
      by (auto split: sum.splits prod.splits)
  qed
next
  case (8 c st d)
  then show ?case by simp
next
  case (9 c st key keys d)
  from "9.prems"(1) obtain k v where k: "k \<in> set (key # keys)" "map_of d k = Some v"
    "reaches v h" "k @ ''_hash'' \<notin> set (takeWhile (\<lambda>x. x \<noteq> k) (key # keys))"
    by blast
  show ?case
  proof (cases "map_of d key")
    case None
    then show ?thesis by simp
  next
    case (Some w)
    show ?thesis
    proof (cases "retrieve_storage c st w")
      case (Inl err)
      with Some show ?thesis by simp
    next
      case (Inr p)
      obtain w1 c1 where p: "p = (w1, c1)" by (cases p)
      from Inr p have a: "retrieve_storage c st w = Inr (w1, c1)" by simp
      have ne: "key \<noteq> k"
      proof
        assume "key = k"
        with Some k(2) have "w = v" by simp
        with "9.IH"(1)[OF Some _ "9.prems"(2,3)] k(3) a show False by simp
      qed
      with k(1) have kin: "k \<in> set keys" by simp
      from ne k(4) have nkey: "key \<noteq> k @ ''_hash''"
        and rest: "k @ ''_hash'' \<notin> set (takeWhile (\<lambda>x. x \<noteq> k) keys)"
        by auto
      from retrieve_cache_grows(1)[OF a] "9.prems"(2,3) have c1: "c1 h = None"
        by (rule cache_grows_None)
      show ?thesis
      proof (cases "ends_hash key")
        case True
        have "strip_hash key \<noteq> k"
        proof
          assume "strip_hash key = k"
          with ends_hash_decomp[OF True] have "key = k @ ''_hash''" by simp
          with nkey show False by simp
        qed
        with ne k(2)
        have "map_of (AList.delete key (AList.update (strip_hash key) w1 d)) k = Some v"
          by (simp add: update_conv' delete_conv')
        with kin k(3) rest have "\<exists>k \<in> set keys. \<exists>v.
            map_of (AList.delete key (AList.update (strip_hash key) w1 d)) k = Some v \<and>
            reaches v h \<and> k @ ''_hash'' \<notin> set (takeWhile (\<lambda>x. x \<noteq> k) keys)"
          by auto
        from "9.IH"(2)[OF Some a refl True this c1 "9.prems"(3)] Some a True
        show ?thesis by simp
      next
        case False
        from ne k(2)
        have "map_of (AList.update key w1 d) k = Some v"
          by (simp add: update_conv')
        with kin k(3) rest have "\<exists>k \<in> set keys. \<exists>v.
            map_of (AList.update key w1 d) k = Some v \<and>
            reaches v h \<and> k @ ''_hash'' \<notin> set (takeWhile (\<lambda>x. x \<noteq> k) keys)"
          by auto
        from "9.IH"(3)[OF Some a refl False this c1 "9.prems"(3)] Some a False
        show ?thesis by simp
      qed
    qed
  qed
qed

lemma holds_hash_ref_reaches: "holds_hash_ref v h \<Longrightarrow> reaches v h"
proof (induction v h rule: holds_hash_ref.induct)
  case (1 es h)
  then show ?case by auto
next
  case (2 d h)
  from "2.prems" obtain kv where kv: "kv \<in> set d"
    "fst kv @ ''_hash'' \<notin> fst ` set (takeWhile (\<lambda>p. fst p \<noteq> fst kv) d)"
    "ends_hash (fst kv) \<and> snd kv = PStr h \<or> holds_hash_ref (snd kv) h"
    and dist: "distinct (map fst d)"
    by auto
  from kv(3) have "reaches (snd kv) h"
  proof
    assume "ends_hash (fst kv) \<and> snd kv = PStr h"
    then show ?thesis by simp
  next
    assume "holds_hash_ref (snd kv) h"
    with "2.IH"[OF kv(1)] show ?thesis by simp
  qed
  with kv(1,2) dist show ?case by auto
qed simp_all

lemma retrieve_bad:
  "retrieve_storage (weakref_map collector_start) Map.empty bad_message = Inl KeyError"
  by (simp add: bad_message_def collector_start_def hash_eval)

lemma serve_bad: "serve not_iterable collector_start bad_message Map.empty = Inl KeyError"
  by (simp add: serve_def retrieve_bad)

text \<open>
  Claim C2, as amended. If an incoming message holds a hash reference to a hash that is
  neither in the weak-reference map nor in the storage chunk of the message, resolving the
  message raises (the failing lookup itself raises KeyError), so the reference is not
  silently dropped, and nothing of the message is dispatched. This is for a reference
  whose entry is read before it is overwritten, as \<open>holds_hash_ref\<close> says: for a
  reference under a key \<open>k\<close> that comes after the key \<open>k_hash\<close> in its dict nothing
  is stated. The loop does not survive the exception: it ends \<open>run\<close> in the state it
  had before the message, whatever messages follow; none of them is received or
  processed.
\<close>

theorem missing_hash_stops_run:
  assumes "holds_hash_ref exp h" and "weakref_map col h = None" and "storage h = None"
  shows "retrieve_storage (weakref_map col) storage (PStr h) = Inl KeyError \<and>
         (\<exists>err. retrieve_storage (weakref_map col) storage exp = Inl err \<and>
                run iter_obj col (Recv exp storage # evs) = (Some err, col))"
proof -
  from assms(1) have "reaches exp h" by (rule holds_hash_ref_reaches)
  from retrieve_missing_raises(1)[of exp h "weakref_map col" storage, OF this assms(2,3)]
  obtain err where
    "retrieve_storage (weakref_map col) storage exp = Inl err"
    by (cases "retrieve_storage (weakref_map col) storage exp") auto
  then show ?thesis using assms(2,3) by (simp add: serve_def)
qed

theorem missing_hash_stops_run_witness:
  "holds_hash_ref bad_message ''gone'' \<and> weakref_map collector_start ''gone'' = None \<and>
   (Map.empty :: storage) ''gone'' = None \<and>
   retrieve_storage (weakref_map collector_start) Map.empty bad_message = Inl KeyError \<and>
   run not_iterable collector_start [Recv bad_message Map.empty, Recv good_message [''h1'' \<mapsto> PObj 7]] =
     (Some KeyError, collector_start)"
proof -
  have r: "holds_hash_ref bad_message ''gone''" by (simp add: bad_message_def hash_eval)
  have c: "weakref_map collector_start ''gone'' = None" by (simp add: collector_start_def)
  from missing_hash_stops_run[OF r c, where storage = Map.empty and iter_obj = not_iterable
      and evs = "[Recv good_message [''h1'' \<mapsto> PObj 7]]"]
  show ?thesis using r c by (simp add: retrieve_bad)
qed

text \<open>
  The claim fails in both halves. The loop is crashed by the failure of one message: after
  a message with a hash that resolves nowhere, a good message is not processed (the
  handler log stays empty), though the same good message alone is resolved and
  dispatched. And a reference that resolves nowhere is silently dropped, with no error,
  when its key \<open>a_hash\<close> comes after the key \<open>a_hash_hash\<close> in the same dict: the
  unit is dispatched without it, and the loop goes on to the next message.
\<close>

theorem missing_hash_stops_run_counterexample:
  "run not_iterable collector_start
       [Recv bad_message Map.empty, Recv good_message [''h1'' \<mapsto> PObj 7]] =
     (Some KeyError, collector_start) \<and>
   run not_iterable collector_start [Recv good_message [''h1'' \<mapsto> PObj 7]] =
     (None, \<lparr>weakref_map = [''h1'' \<mapsto> 7],
             handled = [PDict [(''obs'', PObj 7)], PDict [(''r'', PAtom 3)]]\<rparr>) \<and>
   run not_iterable collector_start
       [Recv shadowed_message [''h1'' \<mapsto> PObj 7], Recv good_message [''h1'' \<mapsto> PObj 7]] =
     (None, \<lparr>weakref_map = [''h1'' \<mapsto> 7],
             handled = [PDict [(''a'', PObj 7)],
                        PDict [(''obs'', PObj 7)], PDict [(''r'', PAtom 3)]]\<rparr>)"
proof -
  have shadowed: "serve not_iterable collector_start shadowed_message [''h1'' \<mapsto> PObj 7] =
      Inr \<lparr>weakref_map = [''h1'' \<mapsto> 7], handled = [PDict [(''a'', PObj 7)]]\<rparr>"
    by (simp add: serve_def shadowed_message_def collector_start_def hash_eval)
  have next_good: "serve not_iterable
      \<lparr>weakref_map = [''h1'' \<mapsto> 7], handled = [PDict [(''a'', PObj 7)]]\<rparr>
      good_message [''h1'' \<mapsto> PObj 7] =
      Inr \<lparr>weakref_map = [''h1'' \<mapsto> 7],
             handled = [PDict [(''a'', PObj 7)],
                        PDict [(''obs'', PObj 7)], PDict [(''r'', PAtom 3)]]\<rparr>"
    by (simp add: serve_def good_message_def hash_eval)
  show ?thesis by (simp add: serve_good serve_bad shadowed next_good)
qed

subsection \<open>A cache hit across two messages\<close>

lemma expire_keeps: "c h = Some i \<Longrightarrow> i \<notin> dead \<Longrightarrow> expire dead c h = Some i"
  by (simp add: expire_def)

text \<open>
  Claim C6. Let the same collector process two messages one after the other, the first
  with a unit (at position \<open>j1\<close>) that holds a hash reference to \<open>h\<close> under the key
  \<open>k1\<close>, the second with a unit (at position \<open>j2\<close>) that holds a hash reference to
  the same \<open>h\<close> under \<open>k2\<close>, and let the payload that \<open>h\<close> stands for after the
  first message be alive (not among the objects collected in between) when the second
  message arrives. Then both units reach the handler holding the identical object under
  their keys without the suffix. In the second message the object comes from the
  weak-reference map: the lookup of \<open>h\<close> succeeds with an empty storage chunk, and
  nothing is assumed about what the chunk of the second message holds for \<open>h\<close>.
\<close>

theorem cache_hit_across_messages:
  assumes first: "run iter_obj col [Recv (PList es1) st1] = (None, col1)"
    and second: "run iter_obj (col1\<lparr>weakref_map := expire dead (weakref_map col1)\<rparr>)
                   [Recv (PList es2) st2] = (None, col2)"
    and u1: "j1 < length es1" "es1 ! j1 = PDict d1" "hash_ref d1 k1 h"
    and u2: "j2 < length es2" "es2 ! j2 = PDict d2" "hash_ref d2 k2 h"
    and alive: "\<forall>i. weakref_map col1 h = Some i \<longrightarrow> i \<notin> dead"
  shows "\<exists>i r1 r2.
           run iter_obj col [Recv (PList es1) st1, Collected dead, Recv (PList es2) st2] = (None, col2) \<and>
           length (handled col1) = length (handled col) + length es1 \<and>
           length (handled col2) = length (handled col1) + length es2 \<and>
           handled col2 ! (length (handled col) + j1) = PDict r1 \<and>
           map_of r1 (strip_hash k1) = Some (PObj i) \<and>
           handled col2 ! (length (handled col1) + j2) = PDict r2 \<and>
           map_of r2 (strip_hash k2) = Some (PObj i) \<and>
           retrieve_storage (expire dead (weakref_map col1)) Map.empty (PStr h) =
             Inr (PObj i, expire dead (weakref_map col1))"
proof -
  from first obtain us1 c1 where
    l1: "retrieve_list (weakref_map col) st1 es1 = Inr (us1, c1)" and
    col1: "col1 = \<lparr>weakref_map = c1, handled = handled col @ us1\<rparr>"
    unfolding run_list_message by blast
  from second col1 obtain us2 c2 where
    l2: "retrieve_list (expire dead c1) st2 es2 = Inr (us2, c2)" and
    col2: "col2 = \<lparr>weakref_map = c2, handled = (handled col @ us1) @ us2\<rparr>"
    unfolding run_list_message by auto
  from retrieve_list_units[OF l1] u1(1,2) obtain ca ca' where
    len1: "length us1 = length es1" and
    a: "retrieve_storage ca st1 (PDict d1) = Inr (us1 ! j1, ca')" and
    ga: "cache_grows ca' st1 c1"
    by metis
  from hash_ref_resolved[OF a u1(3)] obtain r1 i where
    r1: "us1 ! j1 = PDict r1" "ca' h = Some i" "map_of r1 (strip_hash k1) = Some (PObj i)"
    by blast
  from ga r1(2) have c1h: "c1 h = Some i" by (simp add: cache_grows_def)
  with alive col1 have live: "expire dead c1 h = Some i" by (simp add: expire_keeps)
  from retrieve_list_units[OF l2] u2(1,2) obtain cb cb' where
    len2: "length us2 = length es2" and
    gb: "cache_grows (expire dead c1) st2 cb" and
    b: "retrieve_storage cb st2 (PDict d2) = Inr (us2 ! j2, cb')"
    by metis
  from gb live have cbh: "cb h = Some i" by (simp add: cache_grows_def)
  from hash_ref_resolved[OF b u2(3)] cbh obtain r2 where
    r2: "us2 ! j2 = PDict r2" "map_of r2 (strip_hash k2) = Some (PObj i)"
    by auto
  have seq: "run iter_obj col [Recv (PList es1) st1, Collected dead, Recv (PList es2) st2] = (None, col2)"
    using l1 l2 col2 by (simp add: serve_def)
  have n1: "handled col2 ! (length (handled col) + j1) = PDict r1"
    using col2 r1(1) u1(1) len1 by (simp add: nth_append)
  have n2: "handled col2 ! (length (handled col1) + j2) = PDict r2"
    using col1 col2 r2(1) u2(1) len1 len2 by (simp add: nth_append)
  have hit: "retrieve_storage (expire dead (weakref_map col1)) Map.empty (PStr h) =
             Inr (PObj i, expire dead (weakref_map col1))"
    using live col1 by simp
  from seq n1 n2 r1(3) r2(2) hit col1 col2 len1 len2 show ?thesis by auto
qed

theorem cache_hit_across_messages_witness:
  "run not_iterable collector_start
       [Recv (PList [PDict [(''obs_hash'', PStr ''abc123''), (''r'', PAtom 5)]])
          [''abc123'' \<mapsto> PObj 7]] =
     (None, \<lparr>weakref_map = [''abc123'' \<mapsto> 7],
             handled = [PDict [(''r'', PAtom 5), (''obs'', PObj 7)]]\<rparr>) \<and>
   run not_iterable \<lparr>weakref_map = expire {9} [''abc123'' \<mapsto> 7],
        handled = [PDict [(''r'', PAtom 5), (''obs'', PObj 7)]]\<rparr>
       [Recv (PList [PDict [(''next_obs_hash'', PStr ''abc123'')]]) Map.empty] =
     (None, \<lparr>weakref_map = [''abc123'' \<mapsto> 7],
             handled = [PDict [(''r'', PAtom 5), (''obs'', PObj 7)],
                        PDict [(''next_obs'', PObj 7)]]\<rparr>) \<and>
   hash_ref [(''obs_hash'', PStr ''abc123''), (''r'', PAtom 5)] ''obs_hash'' ''abc123'' \<and>
   hash_ref [(''next_obs_hash'', PStr ''abc123'')] ''next_obs_hash'' ''abc123'' \<and>
   (7::nat) \<notin> {9} \<and>
   run not_iterable collector_start
       [Recv (PList [PDict [(''obs_hash'', PStr ''abc123''), (''r'', PAtom 5)]])
          [''abc123'' \<mapsto> PObj 7],
        Collected {9},
        Recv (PList [PDict [(''next_obs_hash'', PStr ''abc123'')]]) Map.empty] =
     (None, \<lparr>weakref_map = [''abc123'' \<mapsto> 7],
             handled = [PDict [(''r'', PAtom 5), (''obs'', PObj 7)],
                        PDict [(''next_obs'', PObj 7)]]\<rparr>)"
proof -
  let ?e1 = "[PDict [(''obs_hash'', PStr ''abc123''), (''r'', PAtom 5)]]"
  let ?e2 = "[PDict [(''next_obs_hash'', PStr ''abc123'')]]"
  let ?col1 = "\<lparr>weakref_map = [''abc123'' \<mapsto> 7::nat],
             handled = [PDict [(''r'', PAtom 5), (''obs'', PObj 7)]]\<rparr>"
  let ?col2 = "\<lparr>weakref_map = [''abc123'' \<mapsto> 7::nat],
             handled = [PDict [(''r'', PAtom 5), (''obs'', PObj 7)],
                        PDict [(''next_obs'', PObj 7)]]\<rparr>"
  have e: "expire {9} [''abc123'' \<mapsto> 7::nat] = [''abc123'' \<mapsto> 7]"
    by (auto simp: expire_def fun_eq_iff)
  have first: "run not_iterable collector_start [Recv (PList ?e1) [''abc123'' \<mapsto> PObj 7]] = (None, ?col1)"
    by (simp add: serve_def collector_start_def hash_eval)
  have second: "run not_iterable (?col1\<lparr>weakref_map := expire {9} (weakref_map ?col1)\<rparr>)
      [Recv (PList ?e2) Map.empty] = (None, ?col2)"
    by (simp add: e serve_def hash_eval)
  have h1: "hash_ref [(''obs_hash'', PStr ''abc123''), (''r'', PAtom 5)] ''obs_hash'' ''abc123''"
    and h2: "hash_ref [(''next_obs_hash'', PStr ''abc123'')] ''next_obs_hash'' ''abc123''"
    by (simp_all add: hash_ref_def hash_eval)
  have alive: "\<forall>i. weakref_map ?col1 ''abc123'' = Some i \<longrightarrow> i \<notin> {9}" by simp
  from cache_hit_across_messages[OF first second _ _ h1 _ _ h2 alive, where ?j1.0 = 0 and ?j2.0 = 0]
  show ?thesis using first second h1 h2 by (simp add: e)
qed

end
